theory Spec2Isabelle
  imports Main "HOL-Library.Sublist"
begin

section \<open>Versions\<close>

text \<open>
  Modelled from the spec: the \<open>Version\<close> type, its constructor \<open>NewVersion\<close> and its
  methods \<open>Major\<close>, \<open>Minor\<close>, \<open>Patch\<close>, \<open>Prerelease\<close>, \<open>Compare\<close>, \<open>LessThan\<close>,
  \<open>GreaterThan\<close> and \<open>Equal\<close> are used by \<open>constraints.go\<close> but declared in another file.
  The spec describes a version as the ordered tuple (major, minor, patch, prerelease,
  build) with a total order in which equality ignores the build metadata and the
  prerelease ordering rules are honoured. The numeric components are natural numbers
  here (the width of the Go integer type is not visible from \<open>constraints.go\<close>), the
  empty prerelease means "no prerelease", a release is above each of its prereleases,
  and two prerelease tags are ordered as byte strings.
\<close>

record Version =
  major :: nat
  minor :: nat
  patch :: nat
  pre :: string
  metadata :: string

definition Major :: "Version \<Rightarrow> nat" where
  "Major v = major v"

definition Minor :: "Version \<Rightarrow> nat" where
  "Minor v = minor v"

definition Patch :: "Version \<Rightarrow> nat" where
  "Patch v = patch v"

definition Prerelease :: "Version \<Rightarrow> string" where
  "Prerelease v = pre v"

definition compareSegment :: "nat \<Rightarrow> nat \<Rightarrow> int" where
  "compareSegment a b = (if a < b then -1 else if b < a then 1 else 0)"

fun compareString :: "string \<Rightarrow> string \<Rightarrow> int" where
  "compareString [] [] = 0"
| "compareString [] (y # ys) = -1"
| "compareString (x # xs) [] = 1"
| "compareString (x # xs) (y # ys) =
     (if (of_char x :: nat) < of_char y then -1
      else if (of_char y :: nat) < of_char x then 1
      else compareString xs ys)"

definition comparePrerelease :: "string \<Rightarrow> string \<Rightarrow> int" where
  "comparePrerelease ps po =
     (if ps = [] \<and> po = [] then 0
      else if ps = [] then 1
      else if po = [] then -1
      else compareString ps po)"

definition Compare :: "Version \<Rightarrow> Version \<Rightarrow> int" where
  "Compare v o' =
     (if compareSegment (Major v) (Major o') \<noteq> 0 then compareSegment (Major v) (Major o')
      else if compareSegment (Minor v) (Minor o') \<noteq> 0 then compareSegment (Minor v) (Minor o')
      else if compareSegment (Patch v) (Patch o') \<noteq> 0 then compareSegment (Patch v) (Patch o')
      else comparePrerelease (pre v) (Prerelease o'))"

definition LessThan :: "Version \<Rightarrow> Version \<Rightarrow> bool" where
  "LessThan v o' = (Compare v o' < 0)"

definition GreaterThan :: "Version \<Rightarrow> Version \<Rightarrow> bool" where
  "GreaterThan v o' = (Compare v o' > 0)"

definition Equal :: "Version \<Rightarrow> Version \<Rightarrow> bool" where
  "Equal v o' = (Compare v o' = 0)"

definition mkVersion :: "nat \<Rightarrow> nat \<Rightarrow> nat \<Rightarrow> Version" where
  "mkVersion ma mi pa = \<lparr>major = ma, minor = mi, patch = pa, pre = [], metadata = []\<rparr>"

section \<open>The legacy clause representation\<close>

text \<open>
  \<open>cfunc\<close> is the Go function type \<open>func(v *Version, c *constraint) bool\<close>; the values a
  clause can hold are the eight constraint functions of the file. A nil function value
  is \<open>None\<close> in the \<open>function\<close> field, and calling it is a run-time panic.
\<close>

datatype cfunc =
    constraintTildeOrEqual
  | constraintNotEqual
  | constraintGreaterThan
  | constraintLessThan
  | constraintGreaterThanEqual
  | constraintLessThanEqual
  | constraintTilde
  | constraintCaret

record constraint =
  function_f :: "cfunc option"
  msg :: string
  con :: Version
  predicate :: string
  orig :: string
  minorDirty :: bool
  dirty :: bool

type_synonym constraintGroup = "constraint list"

record Constraints =
  constraints :: "constraintGroup list"

definition constraintOps :: "string \<rightharpoonup> cfunc" where
  "constraintOps =
     [ '''' \<mapsto> constraintTildeOrEqual,
       ''='' \<mapsto> constraintTildeOrEqual,
       ''!='' \<mapsto> constraintNotEqual,
       ''>'' \<mapsto> constraintGreaterThan,
       ''<'' \<mapsto> constraintLessThan,
       ''>='' \<mapsto> constraintGreaterThanEqual,
       ''=>'' \<mapsto> constraintGreaterThanEqual,
       ''<='' \<mapsto> constraintLessThanEqual,
       ''=<'' \<mapsto> constraintLessThanEqual,
       ''~'' \<mapsto> constraintTilde,
       ''~>'' \<mapsto> constraintTilde,
       ''^'' \<mapsto> constraintCaret ]"

text \<open>A missing key of a Go map reads as the zero value, the empty string.\<close>

definition constraintMsg :: "string \<Rightarrow> string" where
  "constraintMsg k =
     (if k = '''' then ''%s is not equal to %s''
      else if k = ''='' then ''%s is not equal to %s''
      else if k = ''!='' then ''%s is equal to %s''
      else if k = ''>'' then ''%s is less than or equal to %s''
      else if k = ''<'' then ''%s is greater than or equal to %s''
      else if k = ''>='' then ''%s is less than %s''
      else if k = ''=>'' then ''%s is less than %s''
      else if k = ''<='' then ''%s is greater than %s''
      else if k = ''=<'' then ''%s is greater than %s''
      else if k = ''~'' then ''%s does not have same major and minor version as %s''
      else if k = ''~>'' then ''%s does not have same major and minor version as %s''
      else if k = ''^'' then ''%s does not have same major version as %s''
      else '''')"

subsection \<open>The constraint functions\<close>

text \<open>
  Every constraint function receives the clause by pointer. Only
  \<open>constraintTildeOrEqual\<close> writes through it, so the pure functions return the boolean
  alone and \<open>apply_cfunc\<close> returns the boolean together with the clause as the call
  leaves it.
\<close>

definition constraintNotEqual_f :: "Version \<Rightarrow> constraint \<Rightarrow> bool" where
  "constraintNotEqual_f v c =
     (if dirty c then
        (if Major (con c) \<noteq> Major v then True
         else if Minor (con c) \<noteq> Minor v \<and> \<not> minorDirty c then True
         else if minorDirty c then False
         else False)
      else \<not> Equal v (con c))"

definition constraintGreaterThan_f :: "Version \<Rightarrow> constraint \<Rightarrow> bool" where
  "constraintGreaterThan_f v c = (Compare v (con c) = 1)"

definition constraintLessThan_f :: "Version \<Rightarrow> constraint \<Rightarrow> bool" where
  "constraintLessThan_f v c =
     (if \<not> dirty c then Compare v (con c) < 0
      else if Major v > Major (con c) then False
      else if Minor v > Minor (con c) \<and> \<not> minorDirty c then False
      else True)"

definition constraintGreaterThanEqual_f :: "Version \<Rightarrow> constraint \<Rightarrow> bool" where
  "constraintGreaterThanEqual_f v c = (Compare v (con c) \<ge> 0)"

definition constraintLessThanEqual_f :: "Version \<Rightarrow> constraint \<Rightarrow> bool" where
  "constraintLessThanEqual_f v c =
     (if \<not> dirty c then Compare v (con c) \<le> 0
      else if Major v > Major (con c) then False
      else if Minor v > Minor (con c) \<and> \<not> minorDirty c then False
      else True)"

definition constraintTilde_f :: "Version \<Rightarrow> constraint \<Rightarrow> bool" where
  "constraintTilde_f v c =
     (if LessThan v (con c) then False
      else if Major (con c) = 0 \<and> Minor (con c) = 0 \<and> Patch (con c) = 0 then True
      else if Major v \<noteq> Major (con c) then False
      else if Minor v \<noteq> Minor (con c) \<and> \<not> minorDirty c then False
      else True)"

definition constraintTildeOrEqual_f :: "Version \<Rightarrow> constraint \<Rightarrow> bool \<times> constraint" where
  "constraintTildeOrEqual_f v c =
     (if dirty c then
        (let c' = c\<lparr>msg := constraintMsg ''~''\<rparr> in (constraintTilde_f v c', c'))
      else (Equal v (con c), c))"

definition constraintCaret_f :: "Version \<Rightarrow> constraint \<Rightarrow> bool" where
  "constraintCaret_f v c =
     (if LessThan v (con c) then False
      else if Major v \<noteq> Major (con c) then False
      else True)"

fun apply_cfunc :: "cfunc \<Rightarrow> Version \<Rightarrow> constraint \<Rightarrow> bool \<times> constraint" where
  "apply_cfunc constraintTildeOrEqual v c = constraintTildeOrEqual_f v c"
| "apply_cfunc constraintNotEqual v c = (constraintNotEqual_f v c, c)"
| "apply_cfunc constraintGreaterThan v c = (constraintGreaterThan_f v c, c)"
| "apply_cfunc constraintLessThan v c = (constraintLessThan_f v c, c)"
| "apply_cfunc constraintGreaterThanEqual v c = (constraintGreaterThanEqual_f v c, c)"
| "apply_cfunc constraintLessThanEqual v c = (constraintLessThanEqual_f v c, c)"
| "apply_cfunc constraintTilde v c = (constraintTilde_f v c, c)"
| "apply_cfunc constraintCaret v c = (constraintCaret_f v c, c)"

text \<open>
  \<open>check\<close> calls the clause's function on the clause itself. The result is \<open>None\<close> when
  the call panics (a nil function), otherwise the boolean and the clause after the call.
\<close>

definition check :: "constraint \<Rightarrow> Version \<Rightarrow> (bool \<times> constraint) option" where
  "check c v = (case function_f c of None \<Rightarrow> None | Some f \<Rightarrow> Some (apply_cfunc f v c))"

section \<open>Errors\<close>

text \<open>
  The values of Go's \<open>error\<close> interface that the file builds: \<open>fmt.Errorf\<close> with its
  format and arguments (kept unrendered, so that a reason names its template, the
  version under test and the clause text), and \<open>errors.New\<close>.
\<close>

datatype arg = VersionArg Version | StringArg string

datatype error = Errorf string "arg list" | New string

section \<open>Check and Validate\<close>

text \<open>
  A \<open>constraintGroup\<close> is a slice of pointers, so what a constraint function writes into
  a clause is seen by the caller: both loops return the clauses as the calls leave
  them. \<open>None\<close> is a panic.
\<close>

fun check_group :: "constraintGroup \<Rightarrow> Version \<Rightarrow> (bool \<times> constraintGroup) option" where
  "check_group [] v = Some (True, [])"
| "check_group (c # cs) v =
     (case check c v of
        None \<Rightarrow> None
      | Some (b, c') \<Rightarrow>
          if \<not> b then Some (False, c' # cs)
          else (case check_group cs v of
                  None \<Rightarrow> None
                | Some (joy, cs') \<Rightarrow> Some (joy, c' # cs')))"

fun Check_groups :: "constraintGroup list \<Rightarrow> Version \<Rightarrow> (bool \<times> constraintGroup list) option" where
  "Check_groups [] v = Some (False, [])"
| "Check_groups (g # gs) v =
     (case check_group g v of
        None \<Rightarrow> None
      | Some (joy, g') \<Rightarrow>
          if joy then Some (True, g' # gs)
          else (case Check_groups gs v of
                  None \<Rightarrow> None
                | Some (b, gs') \<Rightarrow> Some (b, g' # gs')))"

definition Check :: "Constraints \<Rightarrow> Version \<Rightarrow> (bool \<times> Constraints) option" where
  "Check cs v =
     (case Check_groups (constraints cs) v of
        None \<Rightarrow> None
      | Some (b, gs) \<Rightarrow> Some (b, cs\<lparr>constraints := gs\<rparr>))"

text \<open>
  The inner loop of \<open>Validate\<close> has no \<open>break\<close>: it walks the whole group, carrying
  \<open>joy\<close> and the slice \<open>e\<close> of reasons.
\<close>

fun validate_group ::
  "constraintGroup \<Rightarrow> Version \<Rightarrow> bool \<Rightarrow> error list \<Rightarrow> (bool \<times> error list \<times> constraintGroup) option" where
  "validate_group [] v joy e = Some (joy, e, [])"
| "validate_group (c # cs) v joy e =
     (case check c v of
        None \<Rightarrow> None
      | Some (b, c') \<Rightarrow>
          (case (if \<not> b
                 then validate_group cs v False (e @ [Errorf (msg c') [VersionArg v, StringArg (orig c')]])
                 else validate_group cs v joy e) of
             None \<Rightarrow> None
           | Some (joy', e', cs') \<Rightarrow> Some (joy', e', c' # cs')))"

fun Validate_groups ::
  "constraintGroup list \<Rightarrow> Version \<Rightarrow> error list \<Rightarrow> (bool \<times> error list \<times> constraintGroup list) option" where
  "Validate_groups [] v e = Some (False, e, [])"
| "Validate_groups (g # gs) v e =
     (case validate_group g v True e of
        None \<Rightarrow> None
      | Some (joy, e', g') \<Rightarrow>
          if joy then Some (True, [], g' # gs)
          else (case Validate_groups gs v e' of
                  None \<Rightarrow> None
                | Some (b, e'', gs') \<Rightarrow> Some (b, e'', g' # gs')))"

definition Validate :: "Constraints \<Rightarrow> Version \<Rightarrow> (bool \<times> error list \<times> Constraints) option" where
  "Validate cs v =
     (case Validate_groups (constraints cs) v [] of
        None \<Rightarrow> None
      | Some (b, e, gs) \<Rightarrow> Some (b, e, cs\<lparr>constraints := gs\<rparr>))"

section \<open>Strings and regular expressions\<close>

text \<open>
  The functions of Go's \<open>strings\<close> package that the file calls, on byte strings.
  \<open>Split\<close> is called with the separators \<open>||\<close> and \<open>,\<close> only; an empty separator makes
  no progress on the text and is given the whole text as its one piece here.
\<close>

function split_from :: "string \<Rightarrow> string \<Rightarrow> string \<Rightarrow> string list" where
  "split_from sep acc s =
     (if s = [] then [rev acc]
      else if sep \<noteq> [] \<and> prefix sep s then rev acc # split_from sep [] (drop (length sep) s)
      else split_from sep (hd s # acc) (tl s))"
  by pat_completeness auto
termination
  by (relation "measure (\<lambda>(sep, acc, s). length s)") auto

definition Split :: "string \<Rightarrow> string \<Rightarrow> string list" where
  "Split s sep = (if sep = [] then [s] else split_from sep [] s)"

fun Replace1 :: "string \<Rightarrow> string \<Rightarrow> string \<Rightarrow> string" where
  "Replace1 [] old new = (if old = [] then new else [])"
| "Replace1 (x # xs) old new =
     (if prefix old (x # xs) then new @ drop (length old) (x # xs)
      else x # Replace1 xs old new)"

definition TrimPrefix :: "string \<Rightarrow> string \<Rightarrow> string" where
  "TrimPrefix s p = (if prefix p s then drop (length p) s else s)"

definition toLower_char :: "char \<Rightarrow> char" where
  "toLower_char ch =
     (if (65::nat) \<le> of_char ch \<and> of_char ch \<le> (90::nat)
      then char_of (of_char ch + (32::nat)) else ch)"

definition ToLower :: "string \<Rightarrow> string" where
  "ToLower s = map toLower_char s"

definition isX :: "string \<Rightarrow> bool" where
  "isX x = (let l = ToLower x in l = ''x'' \<or> l = ''*'')"

text \<open>
  The part of Go's \<open>regexp\<close> syntax that the two patterns of the file use. \<open>Cls\<close> is a
  character class given by its members, \<open>Str\<close> a quoted literal, \<open>Grp i\<close> the capturing
  group numbered \<open>i\<close>, \<open>Bol\<close> and \<open>Eol\<close> the anchors \<open>^\<close> and \<open>$\<close>.
\<close>

datatype regex =
    Eps
  | Cls "char list"
  | Str string
  | Seq regex regex
  | Alt regex regex
  | Star regex
  | Grp nat regex
  | Bol
  | Eol

definition Plus_r :: "regex \<Rightarrow> regex" where
  "Plus_r r = Seq r (Star r)"

definition Opt :: "regex \<Rightarrow> regex" where
  "Opt r = Alt r Eps"

fun Seqs :: "regex list \<Rightarrow> regex" where
  "Seqs [] = Eps"
| "Seqs [r] = r"
| "Seqs (r # rs) = Seq r (Seqs rs)"

fun Alts :: "regex list \<Rightarrow> regex" where
  "Alts [] = Eps"
| "Alts [r] = r"
| "Alts (r # rs) = Alt r (Alts rs)"

type_synonym caps = "(nat \<times> string) list"

text \<open>
  \<open>rmatch n r s c\<close> matches \<open>r\<close> at the front of \<open>s\<close>, where \<open>n\<close> is the length of the
  whole subject (for \<open>^\<close>) and \<open>c\<close> the groups captured so far. It returns every way to
  match, each with its captures and the text left over, in the order of preference of
  Go's leftmost-first matching: the left alternative before the right one, one more
  iteration before stopping. An iteration of a star that consumes nothing is not
  repeated.
\<close>

fun rmatch :: "nat \<Rightarrow> regex \<Rightarrow> string \<Rightarrow> caps \<Rightarrow> (caps \<times> string) list" where
  "rmatch n Eps s c = [(c, s)]"
| "rmatch n (Cls cs) s c =
     (case s of [] \<Rightarrow> [] | x # xs \<Rightarrow> if x \<in> set cs then [(c, xs)] else [])"
| "rmatch n (Str w) s c = (if prefix w s then [(c, drop (length w) s)] else [])"
| "rmatch n (Seq r1 r2) s c =
     concat (map (\<lambda>(c', s'). rmatch n r2 s' c') (rmatch n r1 s c))"
| "rmatch n (Alt r1 r2) s c = rmatch n r1 s c @ rmatch n r2 s c"
| "rmatch n (Star r) s c =
     concat (map (\<lambda>(c', s'). if length s' < length s then rmatch n (Star r) s' c' else [])
                 (rmatch n r s c)) @ [(c, s)]"
| "rmatch n (Grp i r) s c =
     map (\<lambda>(c', s'). ((i, take (length s - length s') s) # c', s')) (rmatch n r s c)"
| "rmatch n Bol s c = (if length s = n then [(c, s)] else [])"
| "rmatch n Eol s c = (if s = [] then [(c, s)] else [])"

declare rmatch.simps(6) [simp del]

text \<open>A group that did not take part in the match reads as the empty string.\<close>

definition submatch :: "caps \<Rightarrow> nat \<Rightarrow> string" where
  "submatch c i = (case map_of c i of None \<Rightarrow> [] | Some t \<Rightarrow> t)"

text \<open>
  \<open>find_first\<close> is the leftmost match: the first start position, from the left, at which
  the pattern matches at all, and there the preferred way to match. It returns the text
  from the start of the match on, the captures, and the text after the match.
\<close>

fun find_first :: "nat \<Rightarrow> regex \<Rightarrow> string \<Rightarrow> (string \<times> caps \<times> string) option" where
  "find_first n r [] =
     (case rmatch n r [] [] of [] \<Rightarrow> None | (c, s') # _ \<Rightarrow> Some ([], c, s'))"
| "find_first n r (x # xs) =
     (case rmatch n r (x # xs) [] of
        [] \<Rightarrow> find_first n r xs
      | (c, s') # _ \<Rightarrow> Some (x # xs, c, s'))"

definition groups_of :: "nat \<Rightarrow> string \<times> caps \<times> string \<Rightarrow> string list" where
  "groups_of k m =
     (case m of (st, c, s') \<Rightarrow>
        take (length st - length s') st # map (submatch c) [1..<Suc k])"

definition FindStringSubmatch :: "nat \<Rightarrow> regex \<Rightarrow> string \<Rightarrow> string list option" where
  "FindStringSubmatch k r s = map_option (groups_of k) (find_first (length s) r s)"

lemma find_first_length:
  "find_first n r s = Some (st, c, s') \<Longrightarrow> length st \<le> length s"
  by (induction s) (auto split: list.splits)

text \<open>
  \<open>find_all\<close> is the list of successive non-overlapping matches of
  \<open>FindAllStringSubmatch(s, -1)\<close>: the search goes on where the last match ended (one
  byte further after an empty match).
\<close>

function find_all :: "nat \<Rightarrow> regex \<Rightarrow> string \<Rightarrow> (string \<times> caps \<times> string) list" where
  "find_all n r s =
     (case find_first n r s of
        None \<Rightarrow> []
      | Some (st, c, s') \<Rightarrow>
          if length s' < length st then (st, c, s') # find_all n r s'
          else (case st of
                  [] \<Rightarrow> [(st, c, s')]
                | _ # xs \<Rightarrow> (st, c, s') # find_all n r xs))"
  by pat_completeness auto
termination
proof (relation "measure (\<lambda>(n, r, s). length s)")
  show "wf (measure (\<lambda>(n, r, s). length s))" by simp
next
  fix n r s x2 st y c s'
  assume "find_first n r s = Some x2" "(st, y) = x2" "(c, s') = y" "length s' < length st"
  then have "find_first n r s = Some (st, c, s')" by simp
  from find_first_length [OF this] \<open>length s' < length st\<close>
  show "((n, r, s'), n, r, s) \<in> measure (\<lambda>(n, r, s). length s)" by simp
next
  fix n r s x2 st y c s' x21 xs
  assume "find_first n r s = Some x2" "(st, y) = x2" "(c, s') = y" "st = x21 # xs"
  then have "find_first n r s = Some (x21 # xs, c, s')" by simp
  from find_first_length [OF this]
  show "((n, r, xs), n, r, s) \<in> measure (\<lambda>(n, r, s). length s)" by simp
qed

definition FindAllStringSubmatch :: "nat \<Rightarrow> regex \<Rightarrow> string \<Rightarrow> string list list" where
  "FindAllStringSubmatch k r s = map (groups_of k) (find_all (length s) r s)"

subsection \<open>The patterns of the file\<close>

definition space_class :: "char list" where
  "space_class = [CHR 0x09, CHR 0x0A, CHR 0x0C, CHR 0x0D, CHR '' '']"

definition cv_class :: "char list" where
  "cv_class = ''0123456789|xX*''"

definition id_class :: "char list" where
  "id_class = ''0123456789ABCDEFGHIJKLMNOPQRSTUVWXYZabcdefghijklmnopqrstuvwxyz-''"

text \<open>
  The tail shared by \<open>cvRegex\<close> and the version pattern: an optional prerelease
  \<open>(-([0-9A-Za-z\-]+(\.[0-9A-Za-z\-]+)*))?\<close> in the groups \<open>k+1\<close> to \<open>k+3\<close> and an optional
  build \<open>(\+([0-9A-Za-z\-]+(\.[0-9A-Za-z\-]+)*))?\<close> in the groups \<open>k+4\<close> to \<open>k+6\<close>.
\<close>

definition ids_r :: "nat \<Rightarrow> regex" where
  "ids_r k = Seq (Plus_r (Cls id_class)) (Star (Grp k (Seq (Str ''.'') (Plus_r (Cls id_class)))))"

definition tail_r :: "nat \<Rightarrow> regex" where
  "tail_r k =
     Seq (Opt (Grp (k + 1) (Seq (Str ''-'') (Grp (k + 2) (ids_r (k + 3))))))
         (Opt (Grp (k + 4) (Seq (Str ''+'') (Grp (k + 5) (ids_r (k + 6))))))"

text \<open>\<open>cvRegex\<close>, with its nine groups numbered from \<open>k+1\<close>.\<close>

definition cvRegex :: "nat \<Rightarrow> regex" where
  "cvRegex k =
     Seqs [Opt (Str ''v''),
           Grp (k + 1) (Plus_r (Cls cv_class)),
           Opt (Grp (k + 2) (Seq (Str ''.'') (Plus_r (Cls cv_class)))),
           Opt (Grp (k + 3) (Seq (Str ''.'') (Plus_r (Cls cv_class)))),
           tail_r (k + 3)]"

text \<open>
  The keys of \<open>constraintOps\<close>, joined by \<open>|\<close>. Go iterates over a map in no fixed order;
  the keys are listed here as the map literal has them.
\<close>

definition ops :: "string list" where
  "ops = ['''', ''='', ''!='', ''>'', ''<'', ''>='', ''=>'', ''<='', ''=<'', ''~'', ''~>'', ''^'']"

definition constraintRegex :: regex where
  "constraintRegex =
     Seqs [Bol, Star (Cls space_class), Grp 1 (Alts (map Str ops)), Star (Cls space_class),
           Grp 2 (cvRegex 2), Star (Cls space_class), Eol]"

definition constraintRangeRegex :: regex where
  "constraintRangeRegex =
     Seqs [Star (Cls space_class), Grp 1 (cvRegex 1), Star (Cls space_class), Str ''-'',
           Star (Cls space_class), Grp 11 (cvRegex 11), Star (Cls space_class)]"

fun rewrite_loop :: "string \<Rightarrow> string list list \<Rightarrow> string" where
  "rewrite_loop o' [] = o'"
| "rewrite_loop o' (v # m) =
     rewrite_loop (Replace1 o' (v ! 0) (''>= '' @ v ! 1 @ '', <= '' @ v ! 11)) m"

definition rewriteRange :: "string \<Rightarrow> string" where
  "rewriteRange i =
     (let m = FindAllStringSubmatch 20 constraintRangeRegex i in
      if m = [] then i else rewrite_loop i m)"

section \<open>Parsing a version\<close>

text \<open>
  Modelled from the spec: \<open>NewVersion\<close> is declared in another file. It reads the
  pattern \<open>major[.minor[.patch]][-prerelease][+build]\<close> with an optional leading \<open>v\<close>
  and decimal components, a missing minor or patch being 0, and fails on any other
  text.
\<close>

definition digit_class :: "char list" where
  "digit_class = ''0123456789''"

definition versionRegex :: regex where
  "versionRegex =
     Seqs [Bol, Opt (Str ''v''),
           Grp 1 (Plus_r (Cls digit_class)),
           Opt (Grp 2 (Seq (Str ''.'') (Plus_r (Cls digit_class)))),
           Opt (Grp 3 (Seq (Str ''.'') (Plus_r (Cls digit_class)))),
           tail_r 3, Eol]"

definition digit_val :: "char \<Rightarrow> nat" where
  "digit_val ch = of_char ch - 48"

definition parseNat :: "string \<Rightarrow> nat" where
  "parseNat s = foldl (\<lambda>a ch. 10 * a + digit_val ch) 0 s"

definition NewVersion :: "string \<Rightarrow> error + Version" where
  "NewVersion v =
     (case FindStringSubmatch 9 versionRegex v of
        None \<Rightarrow> Inl (New ''Invalid Semantic Version'')
      | Some m \<Rightarrow>
          Inr \<lparr>major = parseNat (m ! 1),
               minor = parseNat (TrimPrefix (m ! 2) ''.''),
               patch = parseNat (TrimPrefix (m ! 3) ''.''),
               pre = m ! 5,
               metadata = m ! 8\<rparr>)"

section \<open>Parsing a clause, legacy pipeline\<close>

definition parseConstraint :: "string \<Rightarrow> error + constraint" where
  "parseConstraint c =
     (case FindStringSubmatch 11 constraintRegex c of
        None \<Rightarrow> Inl (Errorf ''improper constraint: %s'' [StringArg c])
      | Some m \<Rightarrow>
          (let orig' = m ! 2;
               (ver, minorDirty', dirty') =
                  (if isX (m ! 3) then (''0.0.0'', False, True)
                   else if isX (TrimPrefix (m ! 4) ''.'')
                     then (m ! 3 @ ''.0.0'' @ m ! 6, True, True)
                   else if isX (TrimPrefix (m ! 5) ''.'')
                     then (m ! 3 @ m ! 4 @ ''.0'' @ m ! 6, False, True)
                   else (m ! 2, False, False))
           in case NewVersion ver of
                Inl err \<Rightarrow> Inl (New ''constraint Parser Error'')
              | Inr con' \<Rightarrow>
                  Inr \<lparr>function_f = constraintOps (m ! 1),
                       msg = constraintMsg (m ! 1),
                       con = con',
                       predicate = m ! 1,
                       orig = orig',
                       minorDirty = minorDirty',
                       dirty = dirty'\<rparr>))"

fun parse_clauses :: "string list \<Rightarrow> error + constraintGroup" where
  "parse_clauses [] = Inr []"
| "parse_clauses (s # cs) =
     (case parseConstraint s of
        Inl err \<Rightarrow> Inl err
      | Inr pc \<Rightarrow>
          (case parse_clauses cs of
             Inl err \<Rightarrow> Inl err
           | Inr result \<Rightarrow> Inr (pc # result)))"

fun parse_groups :: "string list \<Rightarrow> error + constraintGroup list" where
  "parse_groups [] = Inr []"
| "parse_groups (v # ors) =
     (case parse_clauses (Split v '','') of
        Inl err \<Rightarrow> Inl err
      | Inr result \<Rightarrow>
          (case parse_groups ors of
             Inl err \<Rightarrow> Inl err
           | Inr or' \<Rightarrow> Inr (result # or')))"

definition NewConstraint :: "string \<Rightarrow> error + Constraints" where
  "NewConstraint c =
     (case parse_groups (Split (rewriteRange c) ''||'') of
        Inl err \<Rightarrow> Inl err
      | Inr or' \<Rightarrow> Inr \<lparr>constraints = or'\<rparr>)"

section \<open>The range algebra\<close>

text \<open>
  Modelled from the spec: the \<open>Constraint\<close> interface, its implementations (a version as
  an exact constraint, \<open>rangeConstraint\<close>, the union, the intersection, \<open>any\<close>, \<open>none\<close>)
  and the functions \<open>Union\<close>, \<open>Intersection\<close> and the satisfaction test are used by
  \<open>constraints.go\<close> but declared in other files. They follow sections 3 and 4.3 of the
  spec: an absent bound of a range is \<open>None\<close>; \<open>Union\<close> collapses to \<open>any\<close> when an
  operand is \<open>any\<close>, drops the \<open>none\<close> operands and is \<open>none\<close> when nothing is left;
  \<open>Intersection\<close> is the dual. The fields \<open>min\<close> and \<open>max\<close> are \<open>min_r\<close> and \<open>max_r\<close> here.
\<close>

record rangeConstraint =
  min_r :: "Version option"
  max_r :: "Version option"
  includeMin :: bool
  includeMax :: bool
  excl :: "Version list"

datatype Constraint =
    exact Version
  | range_c rangeConstraint
  | unionConstraint "Constraint list"
  | intersectionConstraint "Constraint list"
  | any
  | none

definition rangeConstraint0 :: rangeConstraint where
  "rangeConstraint0 =
     \<lparr>min_r = None, max_r = None, includeMin = False, includeMax = False, excl = []\<rparr>"

definition satisfiesRange :: "rangeConstraint \<Rightarrow> Version \<Rightarrow> bool" where
  "satisfiesRange r v =
     (if (case min_r r of
            None \<Rightarrow> False
          | Some lo \<Rightarrow> \<not> (GreaterThan v lo \<or> (includeMin r \<and> Equal v lo))) then False
      else if (case max_r r of
                 None \<Rightarrow> False
               | Some hi \<Rightarrow> \<not> (LessThan v hi \<or> (includeMax r \<and> Equal v hi))) then False
      else if list_ex (Equal v) (excl r) then False
      else True)"

fun Satisfies :: "Constraint \<Rightarrow> Version \<Rightarrow> bool" where
  "Satisfies (exact w) v = Equal v w"
| "Satisfies (range_c r) v = satisfiesRange r v"
| "Satisfies (unionConstraint cs) v = list_ex (\<lambda>c. Satisfies c v) cs"
| "Satisfies (intersectionConstraint cs) v = list_all (\<lambda>c. Satisfies c v) cs"
| "Satisfies any v = True"
| "Satisfies none v = False"

definition Union_c :: "Constraint list \<Rightarrow> Constraint" where
  "Union_c cs =
     (if list_ex (\<lambda>c. c = any) cs then any
      else (let cs' = filter (\<lambda>c. c \<noteq> none) cs
            in if cs' = [] then none else unionConstraint cs'))"

definition Intersection_c :: "Constraint list \<Rightarrow> Constraint" where
  "Intersection_c cs =
     (if list_ex (\<lambda>c. c = none) cs then none
      else (let cs' = filter (\<lambda>c. c \<noteq> any) cs
            in if cs' = [] then any else intersectionConstraint cs'))"

section \<open>Parsing a clause, range pipeline\<close>

definition expandCaret :: "Version \<Rightarrow> Constraint" where
  "expandCaret v =
     (let maxv = mkVersion (major v + 1) 0 0
      in range_c (rangeConstraint0\<lparr>min_r := Some v, max_r := Some maxv,
                                 includeMin := True, includeMax := False\<rparr>))"

definition expandTilde :: "Version \<Rightarrow> bool \<Rightarrow> Constraint" where
  "expandTilde v wildMinor =
     (if wildMinor then expandCaret v
      else (let maxv = mkVersion (major v) (minor v + 1) 0
            in range_c (rangeConstraint0\<lparr>min_r := Some v, max_r := Some maxv,
                                       includeMin := True, includeMax := False\<rparr>)))"

definition expandNeq :: "Version \<Rightarrow> bool \<Rightarrow> bool \<Rightarrow> Constraint" where
  "expandNeq v wildMinor wildPatch =
     (if \<not> (wildMinor \<or> wildPatch) then range_c (rangeConstraint0\<lparr>excl := [v]\<rparr>)
      else (let lr = rangeConstraint0\<lparr>max_r := Some v, includeMax := False\<rparr>;
                minv = mkVersion (major v) (minor v) (patch v);
                minv' = (if wildMinor then minv\<lparr>major := major minv + 1\<rparr>
                         else minv\<lparr>minor := minor minv + 1\<rparr>);
                hr = rangeConstraint0\<lparr>min_r := Some minv', includeMin := True\<rparr>
            in Union_c [range_c lr, range_c hr]))"

definition expandGreater :: "Version \<Rightarrow> bool \<Rightarrow> Constraint" where
  "expandGreater v eq = range_c (rangeConstraint0\<lparr>min_r := Some v, includeMin := eq\<rparr>)"

definition expandLess :: "Version \<Rightarrow> bool \<Rightarrow> bool \<Rightarrow> bool \<Rightarrow> Constraint" where
  "expandLess v wildMinor wildPatch eq =
     (let v2 = mkVersion (major v) (minor v) (patch v);
          v2' = (if wildMinor then v2\<lparr>major := major v2 + 1\<rparr>
                 else if wildPatch then v2\<lparr>minor := minor v2 + 1\<rparr>
                 else v2)
      in range_c (rangeConstraint0\<lparr>max_r := Some v2', includeMax := eq\<rparr>))"

text \<open>The \<open>switch\<close> on the predicate \<open>m[1]\<close>, the case for \<open>~\<close> listing that one symbol.\<close>

definition expand :: "string \<Rightarrow> Version \<Rightarrow> bool \<Rightarrow> bool \<Rightarrow> error + Constraint" where
  "expand p v wildMinor wildPatch =
     (if p = ''^'' then Inr (expandCaret v)
      else if p = ''~'' then Inr (expandTilde v wildMinor)
      else if p = ''!='' then Inr (expandNeq v wildMinor wildPatch)
      else if p = '''' \<or> p = ''='' then
        (if wildPatch \<or> wildMinor then Inr (expandTilde v wildMinor) else Inr (exact v))
      else if p = ''>'' then Inr (expandGreater v False)
      else if p = ''>='' \<or> p = ''=>'' then Inr (expandGreater v True)
      else if p = ''<'' then Inr (expandLess v wildMinor wildPatch False)
      else if p = ''<='' \<or> p = ''=<'' then Inr (expandLess v wildMinor wildPatch True)
      else Inl (Errorf ''Unrecognized predicate %q'' [StringArg p]))"

definition parseConstraintNu :: "string \<Rightarrow> error + Constraint" where
  "parseConstraintNu c =
     (case FindStringSubmatch 11 constraintRegex c of
        None \<Rightarrow> Inl (Errorf ''Malformed constraint: %s'' [StringArg c])
      | Some m \<Rightarrow>
          if isX (m ! 3) then Inr any
          else
            (let (ver, wildPatch, wildMinor) =
                   (if isX (TrimPrefix (m ! 4) ''.'')
                      then (m ! 3 @ ''.0.0'' @ m ! 6, True, True)
                    else if isX (TrimPrefix (m ! 5) ''.'')
                      then (m ! 3 @ m ! 4 @ ''.0'' @ m ! 6, True, False)
                    else (m ! 2, False, False))
             in case NewVersion ver of
                  Inl err \<Rightarrow> Inl (New ''constraint Parser Error'')
                | Inr v \<Rightarrow> expand (m ! 1) v wildMinor wildPatch))"

fun parse_clausesNu :: "string list \<Rightarrow> error + Constraint list" where
  "parse_clausesNu [] = Inr []"
| "parse_clausesNu (s # cs) =
     (case parseConstraintNu s of
        Inl err \<Rightarrow> Inl err
      | Inr pc \<Rightarrow>
          (case parse_clausesNu cs of
             Inl err \<Rightarrow> Inl err
           | Inr result \<Rightarrow> Inr (pc # result)))"

fun parse_groupsNu :: "string list \<Rightarrow> error + Constraint list" where
  "parse_groupsNu [] = Inr []"
| "parse_groupsNu (v # ors) =
     (case parse_clausesNu (Split v '','') of
        Inl err \<Rightarrow> Inl err
      | Inr result \<Rightarrow>
          (case parse_groupsNu ors of
             Inl err \<Rightarrow> Inl err
           | Inr or' \<Rightarrow> Inr (Intersection_c result # or')))"

definition NewConstraintNu :: "string \<Rightarrow> error + Constraint" where
  "NewConstraintNu c =
     (case parse_groupsNu (Split (rewriteRange c) ''||'') of
        Inl err \<Rightarrow> Inl err
      | Inr or' \<Rightarrow> Inr (Union_c or'))"

section \<open>Facts about the matcher\<close>

text \<open>The groups that occur in a pattern.\<close>

fun grps :: "regex \<Rightarrow> nat set" where
  "grps (Seq r1 r2) = grps r1 \<union> grps r2"
| "grps (Alt r1 r2) = grps r1 \<union> grps r2"
| "grps (Star r) = grps r"
| "grps (Grp i r) = insert i (grps r)"
| "grps r = {}"

lemma rmatch_Seq_iff:
  "(c', s') \<in> set (rmatch n (Seq r1 r2) s c) \<longleftrightarrow>
     (\<exists>c1 s1. (c1, s1) \<in> set (rmatch n r1 s c) \<and> (c', s') \<in> set (rmatch n r2 s1 c1))"
  by auto

lemma rmatch_StarD:
  "(c', s') \<in> set (rmatch n (Star r) s c) \<Longrightarrow>
     (c', s') = (c, s) \<or>
     (\<exists>c1 s1. (c1, s1) \<in> set (rmatch n r s c) \<and> length s1 < length s \<and>
        (c', s') \<in> set (rmatch n (Star r) s1 c1))"
  by (subst (asm) rmatch.simps(6)) (auto split: if_splits)

lemma rmatch_frame:
  "(c', s') \<in> set (rmatch n r s c) \<Longrightarrow> i \<notin> grps r \<Longrightarrow> map_of c' i = map_of c i"
proof (induction n r s c arbitrary: c' s' rule: rmatch.induct)
  case (1 n s c)
  then show ?case by simp
next
  case (2 n cs s c)
  then show ?case by (auto split: list.splits if_splits)
next
  case (3 n w s c)
  then show ?case by (simp split: if_splits)
next
  case (4 n r1 r2 s c)
  from "4.prems"(1) obtain c1 s1 where
    a: "(c1, s1) \<in> set (rmatch n r1 s c)" and b: "(c', s') \<in> set (rmatch n r2 s1 c1)"
    unfolding rmatch_Seq_iff by blast
  from "4.prems"(2) have i: "i \<notin> grps r1" "i \<notin> grps r2" by simp_all
  from "4.IH"(1) [OF a i(1)] "4.IH"(2) [OF a refl b i(2)] show ?case by simp
next
  case (5 n r1 r2 s c)
  from "5.prems" "5.IH" show ?case by auto
next
  case (6 n r s c)
  from rmatch_StarD [OF "6.prems"(1)] consider "(c', s') = (c, s)"
    | c1 s1 where "(c1, s1) \<in> set (rmatch n r s c)" "length s1 < length s"
        "(c', s') \<in> set (rmatch n (Star r) s1 c1)"
    by blast
  then show ?case
  proof cases
    case 1
    then show ?thesis by simp
  next
    case 2
    from "6.prems"(2) have i: "i \<notin> grps r" by simp
    from "6.IH"(1) [OF 2(1) i] "6.IH"(2) [OF 2(1) refl 2(2) 2(3) "6.prems"(2)]
    show ?thesis by simp
  qed
next
  case (7 n j r s c)
  from "7.prems"(1) obtain c3 where
    a: "(c3, s') \<in> set (rmatch n r s c)" and c': "c' = (j, take (length s - length s') s) # c3"
    by auto
  from "7.prems"(2) have "i \<noteq> j" "i \<notin> grps r" by simp_all
  with "7.IH" [OF a] c' show ?case by simp
next
  case (8 n s c)
  then show ?case by (simp split: if_splits)
next
  case (9 n s c)
  then show ?case by (simp split: if_splits)
qed

lemma rmatch_Alts_Str:
  "(c', s') \<in> set (rmatch n (Alts (map Str ws)) s c) \<Longrightarrow> ws \<noteq> [] \<Longrightarrow>
     \<exists>w \<in> set ws. s = w @ s'"
proof (induction ws)
  case Nil
  then show ?case by simp
next
  case (Cons w ws)
  show ?case
  proof (cases ws)
    case Nil
    with Cons.prems show ?thesis by (auto simp: prefix_def split: if_splits)
  next
    case (Cons w' ws')
    with Cons.prems Cons.IH show ?thesis by (auto simp: prefix_def split: if_splits)
  qed
qed

lemma find_first_rmatch:
  "find_first n r s = Some (st, c, s') \<Longrightarrow> (c, s') \<in> set (rmatch n r st [])"
  by (induction s) (auto split: list.splits)

lemma groups_of_nth:
  "1 \<le> i \<Longrightarrow> i \<le> k \<Longrightarrow> groups_of k (st, c, s') ! i = submatch c i"
  by (cases i) (auto simp: groups_of_def nth_append simp del: upt_Suc)

lemma constraintRegex_unfold:
  "constraintRegex =
     Seq Bol (Seq (Star (Cls space_class)) (Seq (Grp 1 (Alts (map Str ops)))
       (Seqs [Star (Cls space_class), Grp 2 (cvRegex 2), Star (Cls space_class), Eol])))"
  by (simp add: constraintRegex_def)

lemma ops_nonempty: "ops \<noteq> []"
  by (simp add: ops_def)

lemma grps_rest:
  "1 \<notin> grps (Seqs [Star (Cls space_class), Grp 2 (cvRegex 2), Star (Cls space_class), Eol])"
  by (simp add: cvRegex_def tail_r_def ids_r_def Plus_r_def Opt_def)

lemma rmatch_Grp_iff:
  "(c', s') \<in> set (rmatch n (Grp i r) s c) \<longleftrightarrow>
     (\<exists>c3. (c3, s') \<in> set (rmatch n r s c) \<and> c' = (i, take (length s - length s') s) # c3)"
  by auto

lemma constraintRegex_op:
  assumes "(c', s') \<in> set (rmatch n constraintRegex s c)"
  shows "submatch c' 1 \<in> set ops"
proof -
  let ?rest = "Seqs [Star (Cls space_class), Grp 2 (cvRegex 2), Star (Cls space_class), Eol]"
  from assms obtain c1 s1 c2 s2 where
    g: "(c2, s2) \<in> set (rmatch n (Grp 1 (Alts (map Str ops))) s1 c1)" and
    r: "(c', s') \<in> set (rmatch n ?rest s2 c2)"
    unfolding constraintRegex_unfold rmatch_Seq_iff by blast
  from g obtain c3 where
    a: "(c3, s2) \<in> set (rmatch n (Alts (map Str ops)) s1 c1)" and
    c2: "c2 = (1, take (length s1 - length s2) s1) # c3"
    unfolding rmatch_Grp_iff by blast
  from rmatch_Alts_Str [OF a ops_nonempty] obtain w where w: "w \<in> set ops" "s1 = w @ s2"
    by blast
  with c2 have "map_of c2 1 = Some w" by simp
  with rmatch_frame [OF r grps_rest] have "map_of c' 1 = Some w" by simp
  with w show ?thesis by (simp add: submatch_def)
qed

lemma FindStringSubmatch_op:
  "FindStringSubmatch 11 constraintRegex s = Some m \<Longrightarrow> m ! 1 \<in> set ops"
  by (auto simp: FindStringSubmatch_def groups_of_nth dest!: find_first_rmatch constraintRegex_op)

lemma constraintOps_ops: "p \<in> set ops \<Longrightarrow> constraintOps p \<noteq> None"
  by (auto simp: ops_def constraintOps_def)

section \<open>What a clause and a group say about a version\<close>

text \<open>
  \<open>clause_holds\<close> is the boolean that \<open>c.check(v)\<close> returns, \<open>checked\<close> the clause as that
  call leaves it, \<open>callable\<close> says that the clause's function is not nil.
\<close>

definition clause_holds :: "constraint \<Rightarrow> Version \<Rightarrow> bool" where
  "clause_holds c v = (case check c v of None \<Rightarrow> False | Some (b, c') \<Rightarrow> b)"

definition checked :: "Version \<Rightarrow> constraint \<Rightarrow> constraint" where
  "checked v c = (case check c v of None \<Rightarrow> c | Some (b, c') \<Rightarrow> c')"

definition callable :: "constraint \<Rightarrow> bool" where
  "callable c = (function_f c \<noteq> None)"

definition group_holds :: "constraintGroup \<Rightarrow> Version \<Rightarrow> bool" where
  "group_holds g v = list_all (\<lambda>c. clause_holds c v) g"

definition c_12 :: Constraints where
  "c_12 = \<lparr>constraints =
     [[\<lparr>function_f = Some constraintTildeOrEqual, msg = ''%s is not equal to %s'',
        con = mkVersion 1 2 3, predicate = '''', orig = ''1.2.3'', minorDirty = False,
        dirty = False\<rparr>],
      [\<lparr>function_f = Some constraintTildeOrEqual, msg = ''%s is not equal to %s'',
        con = mkVersion 2 0 0, predicate = '''', orig = ''2.x'', minorDirty = True,
        dirty = True\<rparr>]]\<rparr>"

lemma check_callable:
  "callable c \<Longrightarrow> check c v = Some (clause_holds c v, checked v c)"
  by (auto simp: callable_def check_def clause_holds_def checked_def split: prod.splits)

lemma check_group_callable:
  "list_all callable g \<Longrightarrow> \<exists>g'. check_group g v = Some (group_holds g v, g')"
  by (induction g) (auto simp: group_holds_def check_callable)

lemma Check_groups_callable:
  "list_all (list_all callable) gs \<Longrightarrow>
     \<exists>gs'. Check_groups gs v = Some (list_ex (\<lambda>g. group_holds g v) gs, gs')"
proof (induction gs)
  case Nil
  then show ?case by simp
next
  case (Cons g gs)
  from Cons.prems have "list_all callable g" by simp
  from check_group_callable [OF this] obtain g' where
    g: "check_group g v = Some (group_holds g v, g')" by blast
  from Cons obtain gs' where
    gs: "Check_groups gs v = Some (list_ex (\<lambda>g. group_holds g v) gs, gs')" by auto
  from g gs show ?case by simp
qed

lemma parseConstraint_callable:
  assumes "parseConstraint s = Inr pc"
  shows "callable pc"
proof -
  from assms obtain m where m: "FindStringSubmatch 11 constraintRegex s = Some m"
    by (auto simp: parseConstraint_def split: option.splits)
  from assms m have "function_f pc = constraintOps (m ! 1)"
    by (auto simp: parseConstraint_def Let_def split: sum.splits prod.splits)
  with constraintOps_ops [OF FindStringSubmatch_op [OF m]] show ?thesis
    by (simp add: callable_def)
qed

lemma parse_clauses_callable:
  "parse_clauses ss = Inr g \<Longrightarrow> list_all callable g"
  by (induction ss arbitrary: g) (auto split: sum.splits dest: parseConstraint_callable)

lemma parse_groups_callable:
  "parse_groups ors = Inr gs \<Longrightarrow> list_all (list_all callable) gs"
  by (induction ors arbitrary: gs) (auto split: sum.splits dest: parse_clauses_callable)

lemma NewConstraint_callable:
  "NewConstraint c = Inr cs \<Longrightarrow> list_all (list_all callable) (constraints cs)"
  by (auto simp: NewConstraint_def split: sum.splits dest: parse_groups_callable)

lemma NewConstraint_c_12: "NewConstraint ''1.2.3 || 2.x'' = Inr c_12"
  by code_simp

text \<open>
  C1. For a successfully parsed \<open>Constraints\<close> value and any version, \<open>Check\<close> returns
  (without a panic) true exactly when some \<open>||\<close>-group has all of its comma-joined
  clauses satisfied: the OR over the groups of the AND over each group's clauses.
\<close>

theorem Check_is_or_of_ands:
  assumes "NewConstraint c = Inr cs"
  shows "\<exists>cs'. Check cs v =
           Some (list_ex (\<lambda>g. list_all (\<lambda>cl. clause_holds cl v) g) (constraints cs), cs')"
proof -
  from Check_groups_callable [OF NewConstraint_callable [OF assms]] obtain gs' where
    "Check_groups (constraints cs) v = Some (list_ex (\<lambda>g. group_holds g v) (constraints cs), gs')"
    by blast
  then show ?thesis by (simp add: Check_def group_holds_def)
qed

theorem Check_is_or_of_ands_witness:
  "NewConstraint ''1.2.3 || 2.x'' = Inr c_12 \<and>
   (\<exists>cs'. Check c_12 (mkVersion 2 5 0) = Some (True, cs')) \<and>
   (\<exists>cs'. Check c_12 (mkVersion 1 9 9) = Some (False, cs'))"
proof -
  have h: "NewConstraint ''1.2.3 || 2.x'' = Inr c_12" by (rule NewConstraint_c_12)
  have a: "list_ex (\<lambda>g. list_all (\<lambda>cl. clause_holds cl (mkVersion 2 5 0)) g) (constraints c_12) = True"
    by code_simp
  have b: "list_ex (\<lambda>g. list_all (\<lambda>cl. clause_holds cl (mkVersion 1 9 9)) g) (constraints c_12) = False"
    by code_simp
  from Check_is_or_of_ands [OF h, of "mkVersion 2 5 0"]
       Check_is_or_of_ands [OF h, of "mkVersion 1 9 9"] h
  show ?thesis unfolding a b by blast
qed

section \<open>Validate\<close>

text \<open>
  The reason that \<open>Validate\<close> appends for a failing clause: the clause's message
  template, read after the call of \<open>check\<close>, with the version under test and the clause's
  original text as arguments.
\<close>

definition reason :: "Version \<Rightarrow> constraint \<Rightarrow> error" where
  "reason v c = Errorf (msg (checked v c)) [VersionArg v, StringArg (orig (checked v c))]"

definition reasons :: "constraintGroup \<Rightarrow> Version \<Rightarrow> error list" where
  "reasons g v = map (reason v) (filter (\<lambda>c. \<not> clause_holds c v) g)"

definition satisfied :: "Constraints \<Rightarrow> Version \<Rightarrow> bool" where
  "satisfied cs v = list_ex (\<lambda>g. group_holds g v) (constraints cs)"

lemma validate_group_callable:
  "list_all callable g \<Longrightarrow>
     validate_group g v joy e =
       Some (joy \<and> group_holds g v, e @ reasons g v, map (checked v) g)"
proof (induction g arbitrary: joy e)
  case Nil
  then show ?case by (simp add: group_holds_def reasons_def)
next
  case (Cons c g)
  from Cons.prems have c: "check c v = Some (clause_holds c v, checked v c)"
    and g: "list_all callable g" by (simp_all add: check_callable)
  show ?case
  proof (cases "clause_holds c v")
    case True
    with c Cons.IH [OF g, of joy e] show ?thesis
      by (simp add: group_holds_def reasons_def)
  next
    case False
    with c Cons.IH [OF g, of False "e @ [reason v c]"] show ?thesis
      by (simp add: group_holds_def reasons_def reason_def)
  qed
qed

lemma Validate_groups_callable:
  "list_all (list_all callable) gs \<Longrightarrow>
     \<exists>gs'. Validate_groups gs v e =
       Some (list_ex (\<lambda>g. group_holds g v) gs,
             (if list_ex (\<lambda>g. group_holds g v) gs then []
              else e @ concat (map (\<lambda>g. reasons g v) gs)),
             gs')"
proof (induction gs arbitrary: e)
  case Nil
  then show ?case by simp
next
  case (Cons g gs)
  from Cons.prems have g: "list_all callable g" and gs: "list_all (list_all callable) gs"
    by simp_all
  note vg = validate_group_callable [OF g, of v True e]
  show ?case
  proof (cases "group_holds g v")
    case True
    with vg show ?thesis by simp
  next
    case False
    from Cons.IH [OF gs, of "e @ reasons g v"] obtain gs' where
      "Validate_groups gs v (e @ reasons g v) =
         Some (list_ex (\<lambda>g. group_holds g v) gs,
               (if list_ex (\<lambda>g. group_holds g v) gs then []
                else (e @ reasons g v) @ concat (map (\<lambda>g. reasons g v) gs)),
               gs')" by blast
    with vg False show ?thesis by simp
  qed
qed

text \<open>
  C8. For every \<open>Constraints\<close> value whose clauses hold a function, and every version,
  \<open>Validate\<close> returns (it does not panic), its boolean is the one \<open>Check\<close> returns, it is
  true with no reasons exactly when some group is fully satisfied, and otherwise the
  reasons are one templated message for each failing clause of each group, all the
  clauses of all the groups having been checked.
\<close>

theorem Validate_agrees_with_Check:
  assumes "list_all (list_all callable) (constraints cs)"
  shows "\<exists>cs' cs''.
           Check cs v = Some (satisfied cs v, cs'') \<and>
           Validate cs v =
             Some (satisfied cs v,
                   (if satisfied cs v then []
                    else concat (map (\<lambda>g. reasons g v) (constraints cs))),
                   cs')"
proof -
  from Check_groups_callable [OF assms, of v] obtain gs'' where
    a: "Check_groups (constraints cs) v = Some (satisfied cs v, gs'')"
    unfolding satisfied_def by blast
  from Validate_groups_callable [OF assms, of v "[]"] obtain gs' where
    b: "Validate_groups (constraints cs) v [] =
          Some (satisfied cs v,
                (if satisfied cs v then []
                 else concat (map (\<lambda>g. reasons g v) (constraints cs))),
                gs')"
    unfolding satisfied_def by auto
  from a b show ?thesis by (simp add: Check_def Validate_def)
qed

theorem Validate_agrees_with_Check_witness:
  "list_all (list_all callable) (constraints c_12) \<and>
   (\<exists>cs' cs''.
      Check c_12 (mkVersion 1 9 9) = Some (False, cs'') \<and>
      Validate c_12 (mkVersion 1 9 9) =
        Some (False,
              [Errorf ''%s is not equal to %s'' [VersionArg (mkVersion 1 9 9), StringArg ''1.2.3''],
               Errorf ''%s does not have same major and minor version as %s''
                 [VersionArg (mkVersion 1 9 9), StringArg ''2.x'']],
              cs'))"
proof -
  have h: "list_all (list_all callable) (constraints c_12)" by code_simp
  have s: "satisfied c_12 (mkVersion 1 9 9) = False" by code_simp
  have r: "concat (map (\<lambda>g. reasons g (mkVersion 1 9 9)) (constraints c_12)) =
      [Errorf ''%s is not equal to %s'' [VersionArg (mkVersion 1 9 9), StringArg ''1.2.3''],
       Errorf ''%s does not have same major and minor version as %s''
         [VersionArg (mkVersion 1 9 9), StringArg ''2.x'']]"
    by code_simp
  from Validate_agrees_with_Check [OF h, of "mkVersion 1 9 9"] h
  show ?thesis unfolding s r by simp
qed

section \<open>What evaluation writes\<close>

text \<open>
  \<open>rewritten c c'\<close>: the clause \<open>c'\<close> is \<open>c\<close> itself, or \<open>c\<close> is a wildcard clause of
  \<open>constraintTildeOrEqual\<close> and \<open>c'\<close> is \<open>c\<close> with the tilde message in \<open>msg\<close>.
\<close>

definition rewritten :: "constraint \<Rightarrow> constraint \<Rightarrow> bool" where
  "rewritten c c' =
     (c' = c \<or>
      (dirty c \<and> function_f c = Some constraintTildeOrEqual \<and>
       c' = c\<lparr>msg := constraintMsg ''~''\<rparr>))"

definition c_12_after :: Constraints where
  "c_12_after = \<lparr>constraints =
     [[\<lparr>function_f = Some constraintTildeOrEqual, msg = ''%s is not equal to %s'',
        con = mkVersion 1 2 3, predicate = '''', orig = ''1.2.3'', minorDirty = False,
        dirty = False\<rparr>],
      [\<lparr>function_f = Some constraintTildeOrEqual,
        msg = ''%s does not have same major and minor version as %s'',
        con = mkVersion 2 0 0, predicate = '''', orig = ''2.x'', minorDirty = True,
        dirty = True\<rparr>]]\<rparr>"

lemma rewritten_refl: "rewritten c c"
  by (simp add: rewritten_def)

lemma list_all2_rewritten_refl: "list_all2 rewritten g g"
  by (simp add: list_all2_refl rewritten_refl)

lemma groups_rewritten_refl: "list_all2 (list_all2 rewritten) gs gs"
  by (simp add: list_all2_refl list_all2_rewritten_refl)

lemma apply_cfunc_rewritten:
  "function_f c = Some f \<Longrightarrow> apply_cfunc f v c = (b, c') \<Longrightarrow> rewritten c c'"
  by (cases f) (auto simp: rewritten_def constraintTildeOrEqual_f_def Let_def split: if_splits)

lemma check_rewritten: "check c v = Some (b, c') \<Longrightarrow> rewritten c c'"
  by (auto simp: check_def split: option.splits dest: apply_cfunc_rewritten)

lemma check_group_rewritten:
  "check_group g v = Some (b, g') \<Longrightarrow> list_all2 rewritten g g'"
proof (induction g arbitrary: b g')
  case Nil
  then show ?case by simp
next
  case (Cons c g)
  then show ?case
    by (auto split: option.splits prod.splits if_splits
             dest: check_rewritten simp: list_all2_rewritten_refl)
qed

lemma Check_groups_rewritten:
  "Check_groups gs v = Some (b, gs') \<Longrightarrow> list_all2 (list_all2 rewritten) gs gs'"
proof (induction gs arbitrary: b gs')
  case Nil
  then show ?case by simp
next
  case (Cons g gs)
  then show ?case
    by (auto split: option.splits prod.splits if_splits
             dest: check_group_rewritten simp: groups_rewritten_refl)
qed

lemma validate_group_rewritten:
  "validate_group g v joy e = Some (b, e', g') \<Longrightarrow> list_all2 rewritten g g'"
proof (induction g arbitrary: joy e b e' g')
  case Nil
  then show ?case by simp
next
  case (Cons c g)
  then show ?case
    by (auto split: option.splits prod.splits if_splits dest: check_rewritten)
qed

lemma Validate_groups_rewritten:
  "Validate_groups gs v e = Some (b, e', gs') \<Longrightarrow> list_all2 (list_all2 rewritten) gs gs'"
proof (induction gs arbitrary: e b e' gs')
  case Nil
  then show ?case by simp
next
  case (Cons g gs)
  then show ?case
    by (auto split: option.splits prod.splits if_splits
             dest: validate_group_rewritten simp: groups_rewritten_refl)
qed

text \<open>
  C9, as the code has it. \<open>Check\<close> and \<open>Validate\<close> leave the fields \<open>function\<close>, \<open>con\<close>,
  \<open>predicate\<close>, \<open>orig\<close>, \<open>minorDirty\<close> and \<open>dirty\<close> of every clause as they were; \<open>msg\<close> is
  left as it was too, except in a wildcard clause of \<open>constraintTildeOrEqual\<close> (predicate
  empty or \<open>=\<close>), where the evaluation may store the tilde message.
\<close>

theorem evaluation_writes_msg_only:
  "(Check cs v = Some (b, cs') \<longrightarrow>
      list_all2 (list_all2 rewritten) (constraints cs) (constraints cs')) \<and>
   (Validate cs v = Some (b, e, cs'') \<longrightarrow>
      list_all2 (list_all2 rewritten) (constraints cs) (constraints cs''))"
  by (auto simp: Check_def Validate_def split: option.splits
           dest: Check_groups_rewritten Validate_groups_rewritten)

theorem evaluation_writes_msg_only_witness:
  "Check c_12 (mkVersion 2 5 0) = Some (True, c_12_after) \<and>
   list_all2 (list_all2 rewritten) (constraints c_12) (constraints c_12_after)"
proof -
  have h: "Check c_12 (mkVersion 2 5 0) = Some (True, c_12_after)"
    by code_simp
  from evaluation_writes_msg_only [of c_12 "mkVersion 2 5 0" True c_12_after,
         THEN conjunct1, THEN mp, OF h] h
  show ?thesis by simp
qed

text \<open>
  The claim as the spec states it fails: checking \<open>2.5.0\<close> against \<open>1.2.3 || 2.x\<close>
  replaces the message of the clause \<open>2.x\<close>.
\<close>

theorem clauses_not_immutable:
  "NewConstraint ''1.2.3 || 2.x'' = Inr c_12 \<and>
   Check c_12 (mkVersion 2 5 0) = Some (True, c_12_after) \<and>
   msg (constraints c_12 ! 1 ! 0) = ''%s is not equal to %s'' \<and>
   msg (constraints c_12_after ! 1 ! 0) = ''%s does not have same major and minor version as %s'' \<and>
   c_12_after \<noteq> c_12"
proof -
  have "Check c_12 (mkVersion 2 5 0) = Some (True, c_12_after)"
    by code_simp
  moreover have "msg (constraints c_12 ! 1 ! 0) = ''%s is not equal to %s''"
    by (simp add: c_12_def)
  moreover have "msg (constraints c_12_after ! 1 ! 0) =
      ''%s does not have same major and minor version as %s''"
    by (simp add: c_12_after_def)
  moreover from calculation have "c_12_after \<noteq> c_12" by auto
  ultimately show ?thesis using NewConstraint_c_12 by simp
qed

section \<open>Malformed clauses\<close>

text \<open>
  The clause texts that \<open>NewConstraint\<close> hands to the clause parser, in the order in
  which it does: the pieces between commas of the pieces between \<open>||\<close> of the rewritten
  input. A clause is \<open>malformed\<close> when \<open>constraintRegex\<close> does not match it.
\<close>

definition clause_texts :: "string \<Rightarrow> string list" where
  "clause_texts c = concat (map (\<lambda>v. Split v '','') (Split (rewriteRange c) ''||''))"

definition malformed :: "string \<Rightarrow> bool" where
  "malformed s = (FindStringSubmatch 11 constraintRegex s = None)"

definition failed :: "'e + 'a \<Rightarrow> bool" where
  "failed r = (case r of Inl e \<Rightarrow> True | Inr x \<Rightarrow> False)"

lemma parseConstraint_malformed:
  "malformed s \<Longrightarrow> parseConstraint s = Inl (Errorf ''improper constraint: %s'' [StringArg s])"
  by (simp add: malformed_def parseConstraint_def)

lemma parseConstraintNu_malformed:
  "malformed s \<Longrightarrow> parseConstraintNu s = Inl (Errorf ''Malformed constraint: %s'' [StringArg s])"
  by (simp add: malformed_def parseConstraintNu_def)

lemma parse_clauses_failed:
  "list_ex malformed ss \<Longrightarrow> failed (parse_clauses ss)"
  by (induction ss) (auto simp: failed_def parseConstraint_malformed split: sum.splits)

lemma parse_groups_failed:
  "list_ex malformed (concat (map (\<lambda>v. Split v '','') ors)) \<Longrightarrow> failed (parse_groups ors)"
proof (induction ors)
  case Nil
  then show ?case by simp
next
  case (Cons v ors)
  show ?case
  proof (cases "list_ex malformed (Split v '','')")
    case True
    from parse_clauses_failed [OF this] show ?thesis
      by (auto simp: failed_def split: sum.splits)
  next
    case False
    with Cons.prems have "list_ex malformed (concat (map (\<lambda>v. Split v '','') ors))"
      by (auto simp: list_ex_iff)
    from Cons.IH [OF this] show ?thesis
      by (auto simp: failed_def split: sum.splits)
  qed
qed

text \<open>
  The part of C7 that holds on every input: a malformed clause anywhere makes the
  construction fail, with no \<open>Constraints\<close> value.
\<close>

lemma NewConstraint_fails_on_malformed:
  "list_ex malformed (clause_texts c) \<Longrightarrow> failed (NewConstraint c)"
  unfolding clause_texts_def NewConstraint_def
  by (drule parse_groups_failed) (auto simp: failed_def split: sum.splits)

lemma malformed_example:
  "NewConstraint ''>> 1.0.0'' = Inl (Errorf ''improper constraint: %s'' [StringArg ''>> 1.0.0''])"
  by code_simp

text \<open>
  C7 on the input \<open>1|2, >> 1.0.0\<close>. Its second clause is malformed, but its first clause
  passes \<open>constraintRegex\<close> (the character class holds \<open>|\<close>) and is then refused as a
  version: the construction fails with the bare parser error, which carries no clause
  text.
\<close>

theorem parser_error_hides_malformed_clause:
  "clause_texts ''1|2, >> 1.0.0'' = [''1|2'', '' >> 1.0.0''] \<and>
   malformed '' >> 1.0.0'' \<and>
   \<not> malformed ''1|2'' \<and>
   NewConstraint ''1|2, >> 1.0.0'' = Inl (New ''constraint Parser Error'')"
  by code_simp

section \<open>Hyphen ranges\<close>

definition c_range :: Constraints where
  "c_range = \<lparr>constraints =
     [[\<lparr>function_f = Some constraintGreaterThanEqual, msg = ''%s is less than %s'',
        con = mkVersion 1 0 0, predicate = ''>='', orig = ''1.0.0'', minorDirty = False,
        dirty = False\<rparr>,
       \<lparr>function_f = Some constraintLessThanEqual, msg = ''%s is greater than %s'',
        con = mkVersion 2 0 0, predicate = ''<='', orig = ''2.0.0'', minorDirty = False,
        dirty = False\<rparr>]]\<rparr>"

text \<open>The example of C6: the range \<open>1.0.0 - 2.0.0\<close> is rewritten, then parsed.\<close>

lemma hyphen_range_example:
  "rewriteRange ''1.0.0 - 2.0.0'' = ''>= 1.0.0, <= 2.0.0'' \<and>
   NewConstraint ''1.0.0 - 2.0.0'' = Inr c_range \<and>
   Check c_range (mkVersion 1 5 0) = Some (True, c_range) \<and>
   Check c_range (mkVersion 2 0 0) = Some (True, c_range) \<and>
   Check c_range (mkVersion 2 0 1) = Some (False, c_range)"
  by code_simp

text \<open>
  C6 on the input \<open>2-3.1 - 5, 2-3\<close>. The pattern finds two hyphen ranges. The first is
  rewritten; the text of the second is then looked up in the rewritten text, where it
  first occurs inside the rewritten first range: that occurrence is replaced, and the
  second range reaches the clause parser as it was written.
\<close>

theorem rewriteRange_misses_a_range:
  "map hd (FindAllStringSubmatch 20 constraintRangeRegex ''2-3.1 - 5, 2-3'') =
     [''2-3.1 - 5'', '' 2-3''] \<and>
   rewriteRange '' 2-3'' = ''>= 2, <= 3'' \<and>
   rewriteRange ''2-3.1 - 5, 2-3'' = ''>=>= 2, <= 3.1, <= 5, 2-3'' \<and>
   clause_texts ''2-3.1 - 5, 2-3'' = [''>=>= 2'', '' <= 3.1'', '' <= 5'', '' 2-3'']"
  by code_simp

section \<open>Both pipelines on a text\<close>

text \<open>
  The answer of each pipeline for a constraint text and a version: \<open>None\<close> when the
  construction fails (or the evaluation panics), otherwise the boolean.
\<close>

definition CheckText :: "string \<Rightarrow> Version \<Rightarrow> bool option" where
  "CheckText c v =
     (case NewConstraint c of
        Inl err \<Rightarrow> None
      | Inr cs \<Rightarrow> (case Check cs v of None \<Rightarrow> None | Some (b, cs') \<Rightarrow> Some b))"

definition SatisfiesText :: "string \<Rightarrow> Version \<Rightarrow> bool option" where
  "SatisfiesText c v =
     (case NewConstraintNu c of
        Inl err \<Rightarrow> None
      | Inr k \<Rightarrow> Some (Satisfies k v))"

definition mkPrerelease :: "nat \<Rightarrow> nat \<Rightarrow> nat \<Rightarrow> string \<Rightarrow> Version" where
  "mkPrerelease ma mi pa p = \<lparr>major = ma, minor = mi, patch = pa, pre = p, metadata = []\<rparr>"

section \<open>Omitted components\<close>

text \<open>
  C5 on the clauses \<open>~2\<close> and \<open>=1\<close>. \<open>isX\<close> is false on the empty string, so an omitted
  minor is not a wildcard: \<open>~2\<close> is the range from 2.0.0 to 2.1.0 and rejects 2.1.0, which
  \<open>~2.x\<close> accepts; \<open>=1\<close> is the version 1.0.0 alone and rejects 1.5.0, which \<open>=1.x\<close>
  accepts. Both pipelines do so.
\<close>

theorem omitted_minor_is_not_a_wildcard:
  "CheckText ''~2'' (mkVersion 2 1 0) = Some False \<and>
   CheckText ''~2.x'' (mkVersion 2 1 0) = Some True \<and>
   SatisfiesText ''~2'' (mkVersion 2 1 0) = Some False \<and>
   SatisfiesText ''~2.x'' (mkVersion 2 1 0) = Some True \<and>
   CheckText ''=1'' (mkVersion 1 5 0) = Some False \<and>
   CheckText ''=1.x'' (mkVersion 1 5 0) = Some True \<and>
   SatisfiesText ''=1'' (mkVersion 1 5 0) = Some False \<and>
   SatisfiesText ''=1.x'' (mkVersion 1 5 0) = Some True"
  by code_simp

section \<open>A wildcard major\<close>

definition wildcards :: "string list" where
  "wildcards = [''x'', ''X'', ''*'']"

lemma wildcard_texts_are_any:
  "list_all (\<lambda>p. list_all (\<lambda>w. NewConstraintNu (p @ w) = Inr any) wildcards) ops"
  by code_simp

text \<open>
  C4, as the code has it. In the range pipeline a clause whose major component is \<open>x\<close>,
  \<open>X\<close> or \<open>*\<close> is \<open>any\<close>, whatever its predicate and whatever follows the major
  component, and every version satisfies it; so it is for each predicate of the grammar
  followed by one of the three wildcards. The empty text is no clause: both
  constructors refuse it.
\<close>

theorem wildcard_major_is_any:
  "(FindStringSubmatch 11 constraintRegex c = Some m \<longrightarrow> isX (m ! 3) \<longrightarrow>
      parseConstraintNu c = Inr any) \<and>
   (p \<in> set ops \<longrightarrow> w \<in> set wildcards \<longrightarrow>
      NewConstraintNu (p @ w) = Inr any \<and> SatisfiesText (p @ w) v = Some True) \<and>
   Satisfies any v \<and>
   failed (NewConstraint []) \<and> failed (NewConstraintNu [])"
proof -
  have a: "FindStringSubmatch 11 constraintRegex c = Some m \<longrightarrow> isX (m ! 3) \<longrightarrow>
      parseConstraintNu c = Inr any"
    by (simp add: parseConstraintNu_def)
  have b: "p \<in> set ops \<longrightarrow> w \<in> set wildcards \<longrightarrow>
      NewConstraintNu (p @ w) = Inr any \<and> SatisfiesText (p @ w) v = Some True"
    using wildcard_texts_are_any by (auto simp: list_all_iff SatisfiesText_def)
  have c: "failed (NewConstraint [])" by code_simp
  have d: "failed (NewConstraintNu [])" by code_simp
  from a b c d show ?thesis by simp
qed

theorem wildcard_major_is_any_witness:
  "FindStringSubmatch 11 constraintRegex ''!= X.2'' =
     Some [''!= X.2'', ''!='', ''X.2'', ''X'', ''.2'', [], [], [], [], [], [], []] \<and>
   isX ''X'' \<and> parseConstraintNu ''!= X.2'' = Inr any \<and>
   ''!='' \<in> set ops \<and> ''x'' \<in> set wildcards \<and>
   NewConstraintNu ''!=x'' = Inr any \<and>
   SatisfiesText ''!=x'' (mkVersion 0 0 1) = Some True"
proof -
  have m: "FindStringSubmatch 11 constraintRegex ''!= X.2'' =
     Some [''!= X.2'', ''!='', ''X.2'', ''X'', ''.2'', [], [], [], [], [], [], []]"
    by code_simp
  have x: "isX ([''!= X.2'', ''!='', ''X.2'', ''X'', ''.2'', [], [], [], [], [], [], []] ! 3)"
    by code_simp
  have p: "''!='' \<in> set ops" by (simp add: ops_def)
  have w: "''x'' \<in> set wildcards" by (simp add: wildcards_def)
  from wildcard_major_is_any [of "''!= X.2''" _ "''!=''" "''x''" "mkVersion 0 0 1"] m x p w
  show ?thesis by simp
qed

text \<open>
  The claim as the spec states it fails: the empty pattern is refused by both
  constructors, and the legacy pipeline does not accept every version for a wildcard
  major (\<open>!=x\<close> rejects 0.0.1, \<open>^x\<close> rejects 1.0.0).
\<close>

theorem wildcard_major_not_always_any:
  "NewConstraint [] = Inl (Errorf ''improper constraint: %s'' [StringArg []]) \<and>
   NewConstraintNu [] = Inl (Errorf ''Malformed constraint: %s'' [StringArg []]) \<and>
   CheckText ''!=x'' (mkVersion 0 0 1) = Some False \<and>
   CheckText ''^x'' (mkVersion 1 0 0) = Some False"
  by code_simp

section \<open>Ranges of versions\<close>

text \<open>
  \<open>in_range lo hi w\<close>: the version \<open>w\<close> lies in the half-open range from \<open>lo\<close> (included)
  to \<open>hi\<close> (excluded). \<open>prerelease_of hi w\<close>: \<open>w\<close> is a prerelease of the version \<open>hi\<close>.
\<close>

definition in_range :: "Version \<Rightarrow> Version \<Rightarrow> Version \<Rightarrow> bool" where
  "in_range lo hi w = (Compare w lo \<ge> 0 \<and> Compare w hi < 0)"

definition prerelease_of :: "Version \<Rightarrow> Version \<Rightarrow> bool" where
  "prerelease_of hi w =
     (major w = major hi \<and> minor w = minor hi \<and> patch w = patch hi \<and> pre w \<noteq> [])"

definition zero_anchor :: "Version \<Rightarrow> bool" where
  "zero_anchor v = (major v = 0 \<and> minor v = 0 \<and> patch v = 0)"

lemma mkVersion_sel [simp]:
  "major (mkVersion a b c) = a" "minor (mkVersion a b c) = b" "patch (mkVersion a b c) = c"
  "pre (mkVersion a b c) = []"
  by (simp_all add: mkVersion_def)

lemma compareString_range: "compareString a b \<in> {-1, 0, 1}"
  by (induction a b rule: compareString.induct) auto

lemma compareString_eq_0: "compareString a b = 0 \<longleftrightarrow> a = b"
  by (induction a b rule: compareString.induct) auto

lemma compareString_sym: "compareString b a = - compareString a b"
  by (induction a b rule: compareString.induct) auto

lemma comparePrerelease_range: "comparePrerelease a b \<in> {-1, 0, 1}"
  using compareString_range [of a b] by (auto simp: comparePrerelease_def)

lemma Compare_range: "Compare w v \<in> {-1, 0, 1}"
  using comparePrerelease_range [of "pre w" "pre v"]
  by (auto simp: Compare_def compareSegment_def Prerelease_def)

lemma Compare_gt_iff: "Compare w v = 1 \<longleftrightarrow> Compare w v > 0"
  using Compare_range [of w v] by auto

lemma Compare_release_less:
  "Compare w (mkVersion a b c) < 0 \<longleftrightarrow>
     major w < a \<or>
     (major w = a \<and> (minor w < b \<or> (minor w = b \<and> (patch w < c \<or> (patch w = c \<and> pre w \<noteq> [])))))"
  by (auto simp: Compare_def compareSegment_def comparePrerelease_def mkVersion_def
                 Major_def Minor_def Patch_def Prerelease_def)

lemma Compare_ge_major: "Compare w v \<ge> 0 \<Longrightarrow> major v \<le> major w"
  by (auto simp: Compare_def compareSegment_def Major_def split: if_splits)

lemma Compare_ge_minor: "Compare w v \<ge> 0 \<Longrightarrow> major w = major v \<Longrightarrow> minor v \<le> minor w"
  by (auto simp: Compare_def compareSegment_def Major_def Minor_def split: if_splits)

lemma caret_range:
  "Satisfies (expandCaret v) w = in_range v (mkVersion (major v + 1) 0 0) w"
  using Compare_range [of w v]
  by (auto simp: expandCaret_def satisfiesRange_def rangeConstraint0_def in_range_def
                 GreaterThan_def LessThan_def Equal_def Let_def)

lemma tilde_range:
  "Satisfies (expandTilde v wm) w =
     in_range v (if wm then mkVersion (major v + 1) 0 0 else mkVersion (major v) (minor v + 1) 0) w"
  using Compare_range [of w v]
  by (auto simp: expandTilde_def expandCaret_def satisfiesRange_def rangeConstraint0_def
                 in_range_def GreaterThan_def LessThan_def Equal_def Let_def)

lemma legacy_caret_range:
  "\<not> prerelease_of (mkVersion (major (con c) + 1) 0 0) w \<Longrightarrow>
     constraintCaret_f w c = in_range (con c) (mkVersion (major (con c) + 1) 0 0) w"
  using Compare_ge_major [of w "con c"]
  by (auto simp: constraintCaret_f_def in_range_def LessThan_def Compare_release_less
                 prerelease_of_def Major_def)

lemma legacy_tilde_range:
  "\<not> zero_anchor (con c) \<Longrightarrow>
   \<not> prerelease_of (if minorDirty c then mkVersion (major (con c) + 1) 0 0
                     else mkVersion (major (con c)) (minor (con c) + 1) 0) w \<Longrightarrow>
     constraintTilde_f w c =
       in_range (con c) (if minorDirty c then mkVersion (major (con c) + 1) 0 0
                         else mkVersion (major (con c)) (minor (con c) + 1) 0) w"
  using Compare_ge_major [of w "con c"] Compare_ge_minor [of w "con c"]
  by (auto simp: constraintTilde_f_def in_range_def LessThan_def Compare_release_less
                 prerelease_of_def Major_def Minor_def Patch_def zero_anchor_def)

lemma legacy_tilde_zero:
  "zero_anchor (con c) \<Longrightarrow> constraintTilde_f w c = (Compare w (con c) \<ge> 0)"
  by (auto simp: constraintTilde_f_def LessThan_def Major_def Minor_def Patch_def zero_anchor_def)

definition c_tilde_123 :: constraint where
  "c_tilde_123 =
     \<lparr>function_f = Some constraintTilde,
      msg = ''%s does not have same major and minor version as %s'',
      con = mkVersion 1 2 3, predicate = ''~'', orig = ''1.2.3'', minorDirty = False,
      dirty = False\<rparr>"

definition c_tilde_1x :: constraint where
  "c_tilde_1x =
     \<lparr>function_f = Some constraintTilde,
      msg = ''%s does not have same major and minor version as %s'',
      con = mkVersion 1 0 0, predicate = ''~'', orig = ''1.x'', minorDirty = True,
      dirty = True\<rparr>"

definition c_caret_123 :: constraint where
  "c_caret_123 =
     \<lparr>function_f = Some constraintCaret,
      msg = ''%s does not have same major version as %s'',
      con = mkVersion 1 2 3, predicate = ''^'', orig = ''1.2.3'', minorDirty = False,
      dirty = False\<rparr>"

lemma tilde_caret_parsed:
  "NewConstraint ''~1.2.3'' = Inr \<lparr>constraints = [[c_tilde_123]]\<rparr> \<and>
   NewConstraint ''~1.x'' = Inr \<lparr>constraints = [[c_tilde_1x]]\<rparr> \<and>
   NewConstraint ''^1.2.3'' = Inr \<lparr>constraints = [[c_caret_123]]\<rparr>"
  by code_simp

lemma tilde_123_examples:
  "CheckText ''~1.2.3'' (mkVersion 1 2 3) = Some True \<and>
   CheckText ''~1.2.3'' (mkVersion 1 2 9) = Some True \<and>
   CheckText ''~1.2.3'' (mkVersion 1 3 0) = Some False \<and>
   CheckText ''~1.2.3'' (mkVersion 1 2 2) = Some False \<and>
   SatisfiesText ''~1.2.3'' (mkVersion 1 2 3) = Some True \<and>
   SatisfiesText ''~1.2.3'' (mkVersion 1 2 9) = Some True \<and>
   SatisfiesText ''~1.2.3'' (mkVersion 1 3 0) = Some False \<and>
   SatisfiesText ''~1.2.3'' (mkVersion 1 2 2) = Some False"
  by code_simp

text \<open>
  C2, as the code has it. In the range pipeline the expansion of \<open>^\<close>, and of \<open>~\<close> with a
  wildcard minor, is satisfied exactly by the versions from the anchor \<open>v\<close> up to, and
  without, the next major version; the expansion of \<open>~\<close> with a concrete minor exactly by
  those up to, and without, the next minor version; for every anchor. (\<open>expand\<close> and
  \<open>constraintOps\<close> say which expansion and which function a predicate gets.) The legacy
  functions accept the same versions, but for the prereleases of the upper bound, which
  they reject, and but for \<open>constraintTilde\<close> on an anchor with components 0.0.0, where
  it accepts every version from the anchor on.
\<close>

theorem caret_and_tilde_ranges:
  "Satisfies (expandCaret v) w = in_range v (mkVersion (major v + 1) 0 0) w \<and>
   Satisfies (expandTilde v True) w = in_range v (mkVersion (major v + 1) 0 0) w \<and>
   Satisfies (expandTilde v False) w = in_range v (mkVersion (major v) (minor v + 1) 0) w \<and>
   (con c = v \<longrightarrow> \<not> prerelease_of (mkVersion (major v + 1) 0 0) w \<longrightarrow>
      constraintCaret_f w c = in_range v (mkVersion (major v + 1) 0 0) w) \<and>
   (con c = v \<longrightarrow> minorDirty c \<longrightarrow> \<not> zero_anchor v \<longrightarrow>
      \<not> prerelease_of (mkVersion (major v + 1) 0 0) w \<longrightarrow>
      constraintTilde_f w c = in_range v (mkVersion (major v + 1) 0 0) w) \<and>
   (con c = v \<longrightarrow> \<not> minorDirty c \<longrightarrow> \<not> zero_anchor v \<longrightarrow>
      \<not> prerelease_of (mkVersion (major v) (minor v + 1) 0) w \<longrightarrow>
      constraintTilde_f w c = in_range v (mkVersion (major v) (minor v + 1) 0) w) \<and>
   (con c = v \<longrightarrow> zero_anchor v \<longrightarrow> constraintTilde_f w c = (Compare w v \<ge> 0)) \<and>
   expand ''^'' v wm wp = Inr (expandCaret v) \<and>
   expand ''~'' v wm wp = Inr (expandTilde v wm) \<and>
   constraintOps ''^'' = Some constraintCaret \<and>
   constraintOps ''~'' = Some constraintTilde \<and>
   constraintOps ''~>'' = Some constraintTilde"
proof -
  have a: "Satisfies (expandCaret v) w = in_range v (mkVersion (major v + 1) 0 0) w"
    by (rule caret_range)
  have b: "Satisfies (expandTilde v True) w = in_range v (mkVersion (major v + 1) 0 0) w"
    using tilde_range [of v True w] by simp
  have c: "Satisfies (expandTilde v False) w = in_range v (mkVersion (major v) (minor v + 1) 0) w"
    using tilde_range [of v False w] by simp
  have d: "con c = v \<longrightarrow> \<not> prerelease_of (mkVersion (major v + 1) 0 0) w \<longrightarrow>
      constraintCaret_f w c = in_range v (mkVersion (major v + 1) 0 0) w"
    using legacy_caret_range [of c w] by auto
  have e: "con c = v \<longrightarrow> minorDirty c \<longrightarrow> \<not> zero_anchor v \<longrightarrow>
      \<not> prerelease_of (mkVersion (major v + 1) 0 0) w \<longrightarrow>
      constraintTilde_f w c = in_range v (mkVersion (major v + 1) 0 0) w"
    using legacy_tilde_range [of c w] by auto
  have f: "con c = v \<longrightarrow> \<not> minorDirty c \<longrightarrow> \<not> zero_anchor v \<longrightarrow>
      \<not> prerelease_of (mkVersion (major v) (minor v + 1) 0) w \<longrightarrow>
      constraintTilde_f w c = in_range v (mkVersion (major v) (minor v + 1) 0) w"
    using legacy_tilde_range [of c w] by auto
  have g: "con c = v \<longrightarrow> zero_anchor v \<longrightarrow> constraintTilde_f w c = (Compare w v \<ge> 0)"
    using legacy_tilde_zero [of c w] by auto
  have h: "expand ''^'' v wm wp = Inr (expandCaret v)"
    "expand ''~'' v wm wp = Inr (expandTilde v wm)"
    by (simp_all add: expand_def)
  have i: "constraintOps ''^'' = Some constraintCaret"
    "constraintOps ''~'' = Some constraintTilde"
    "constraintOps ''~>'' = Some constraintTilde"
    by (simp_all add: constraintOps_def)
  from a b c d e f g h i show ?thesis by blast
qed

theorem caret_and_tilde_ranges_witness:
  "NewConstraint ''~1.2.3'' = Inr \<lparr>constraints = [[c_tilde_123]]\<rparr> \<and>
   con c_tilde_123 = mkVersion 1 2 3 \<and> \<not> minorDirty c_tilde_123 \<and>
   \<not> zero_anchor (mkVersion 1 2 3) \<and>
   \<not> prerelease_of (mkVersion 1 3 0) (mkVersion 1 2 9) \<and>
   constraintTilde_f (mkVersion 1 2 9) c_tilde_123 \<and>
   in_range (mkVersion 1 2 3) (mkVersion 1 3 0) (mkVersion 1 2 9) \<and>
   NewConstraint ''~1.x'' = Inr \<lparr>constraints = [[c_tilde_1x]]\<rparr> \<and>
   con c_tilde_1x = mkVersion 1 0 0 \<and> minorDirty c_tilde_1x \<and>
   \<not> zero_anchor (mkVersion 1 0 0) \<and>
   \<not> prerelease_of (mkVersion 2 0 0) (mkVersion 2 0 0) \<and>
   \<not> constraintTilde_f (mkVersion 2 0 0) c_tilde_1x \<and>
   \<not> in_range (mkVersion 1 0 0) (mkVersion 2 0 0) (mkVersion 2 0 0) \<and>
   NewConstraint ''^1.2.3'' = Inr \<lparr>constraints = [[c_caret_123]]\<rparr> \<and>
   con c_caret_123 = mkVersion 1 2 3 \<and>
   \<not> prerelease_of (mkVersion 2 0 0) (mkVersion 1 9 9) \<and>
   constraintCaret_f (mkVersion 1 9 9) c_caret_123 \<and>
   in_range (mkVersion 1 2 3) (mkVersion 2 0 0) (mkVersion 1 9 9) \<and>
   Satisfies (expandCaret (mkVersion 1 2 3)) (mkVersion 1 9 9) \<and>
   CheckText ''~1.2.3'' (mkVersion 1 2 9) = Some True \<and>
   SatisfiesText ''~1.2.3'' (mkVersion 1 3 0) = Some False"
proof -
  let ?v = "mkVersion 1 2 3" and ?u = "mkVersion 1 0 0"
  have e: "mkVersion (major ?v) (minor ?v + 1) 0 = mkVersion 1 3 0"
    "mkVersion (major ?u + 1) 0 0 = mkVersion 2 0 0"
    "mkVersion (major ?v + 1) 0 0 = mkVersion 2 0 0"
    by (simp_all add: eval_nat_numeral)
  have h1: "con c_tilde_123 = ?v" "\<not> minorDirty c_tilde_123"
    by (simp_all add: c_tilde_123_def)
  have h2: "con c_tilde_1x = ?u" "minorDirty c_tilde_1x"
    by (simp_all add: c_tilde_1x_def)
  have h3: "con c_caret_123 = ?v"
    by (simp add: c_caret_123_def)
  have z: "\<not> zero_anchor ?v" "\<not> zero_anchor ?u"
    by (simp_all add: zero_anchor_def)
  have p: "\<not> prerelease_of (mkVersion 1 3 0) (mkVersion 1 2 9)"
    "\<not> prerelease_of (mkVersion 2 0 0) (mkVersion 2 0 0)"
    "\<not> prerelease_of (mkVersion 2 0 0) (mkVersion 1 9 9)"
    by (simp_all add: prerelease_of_def)
  have r: "in_range ?v (mkVersion 1 3 0) (mkVersion 1 2 9)"
    "\<not> in_range ?u (mkVersion 2 0 0) (mkVersion 2 0 0)"
    "in_range ?v (mkVersion 2 0 0) (mkVersion 1 9 9)"
    by code_simp+
  have t1: "constraintTilde_f (mkVersion 1 2 9) c_tilde_123 =
              in_range ?v (mkVersion 1 3 0) (mkVersion 1 2 9)"
    using caret_and_tilde_ranges [of ?v "mkVersion 1 2 9" c_tilde_123] h1 z(1) p(1)
    unfolding e by blast
  have t2: "constraintTilde_f (mkVersion 2 0 0) c_tilde_1x =
              in_range ?u (mkVersion 2 0 0) (mkVersion 2 0 0)"
    using caret_and_tilde_ranges [of ?u "mkVersion 2 0 0" c_tilde_1x] h2 z(2) p(2)
    unfolding e by blast
  have t3: "constraintCaret_f (mkVersion 1 9 9) c_caret_123 =
              in_range ?v (mkVersion 2 0 0) (mkVersion 1 9 9)"
    using caret_and_tilde_ranges [of ?v "mkVersion 1 9 9" c_caret_123] h3 p(3)
    unfolding e by blast
  have t4: "Satisfies (expandCaret ?v) (mkVersion 1 9 9) =
              in_range ?v (mkVersion 2 0 0) (mkVersion 1 9 9)"
    using caret_and_tilde_ranges [of ?v "mkVersion 1 9 9" c_caret_123]
    unfolding e by blast
  from t1 t2 t3 t4 r h1 h2 h3 z p tilde_caret_parsed tilde_123_examples
  show ?thesis by blast
qed

text \<open>
  The claim as the spec states it fails at the anchor 0.0.0: the legacy \<open>~0.0.0\<close>
  accepts 1.0.0, which is not below 0.1.0.
\<close>

theorem tilde_zero_accepts_all:
  "CheckText ''~0.0.0'' (mkVersion 1 0 0) = Some True \<and>
   in_range (mkVersion 0 0 0) (mkVersion 0 1 0) (mkVersion 1 0 0) = False"
  by code_simp

section \<open>Not equal\<close>

text \<open>
  \<open>bumped v wildMinor\<close> is the lower bound of the high range of \<open>expandNeq\<close>: the anchor
  with its major incremented when the minor is a wildcard, with its minor incremented
  otherwise, and without prerelease. \<open>anchor_of c\<close> says that the anchor of a legacy
  clause is zero-filled as its wildcard flags say.
\<close>

definition bumped :: "Version \<Rightarrow> bool \<Rightarrow> Version" where
  "bumped v wildMinor =
     (if wildMinor then mkVersion (major v + 1) (minor v) (patch v)
      else mkVersion (major v) (minor v + 1) (patch v))"

definition zero_filled :: "constraint \<Rightarrow> bool" where
  "zero_filled c =
     ((dirty c \<longrightarrow> patch (con c) = 0) \<and> (minorDirty c \<longrightarrow> minor (con c) = 0))"

lemma Compare_release_ge:
  "Compare w (mkVersion a b c) \<ge> 0 \<longleftrightarrow> \<not> Compare w (mkVersion a b c) < 0"
  by auto

lemma neq_exact:
  "Satisfies (expandNeq v False False) w = (\<not> Equal w v)"
  by (simp add: expandNeq_def satisfiesRange_def rangeConstraint0_def)

lemma neq_wild:
  "wm \<or> wp \<Longrightarrow>
     Satisfies (expandNeq v wm wp) w = (LessThan w v \<or> Compare w (bumped v wm) \<ge> 0)"
  using Compare_range [of w "bumped v wm"]
  by (auto simp: expandNeq_def Union_c_def satisfiesRange_def rangeConstraint0_def Let_def
                 bumped_def mkVersion_def GreaterThan_def Equal_def)

lemma legacy_neq_exact:
  "\<not> dirty c \<Longrightarrow> constraintNotEqual_f w c = (\<not> Equal w (con c))"
  by (simp add: constraintNotEqual_f_def)

lemma legacy_neq_wild:
  "dirty c \<Longrightarrow> zero_filled c \<Longrightarrow> pre w = [] \<Longrightarrow>
     constraintNotEqual_f w c =
       (LessThan w (con c) \<or> Compare w (bumped (con c) (minorDirty c)) \<ge> 0)"
  unfolding Compare_release_ge bumped_def
  by (auto simp: constraintNotEqual_f_def zero_filled_def LessThan_def Compare_release_less
                 Compare_def compareSegment_def comparePrerelease_def
                 Major_def Minor_def Patch_def Prerelease_def split: if_splits)

definition c_neq_12x :: constraint where
  "c_neq_12x =
     \<lparr>function_f = Some constraintNotEqual, msg = ''%s is equal to %s'',
      con = mkVersion 1 2 0, predicate = ''!='', orig = ''1.2.x'', minorDirty = False,
      dirty = True\<rparr>"

definition c_neq_123 :: constraint where
  "c_neq_123 =
     \<lparr>function_f = Some constraintNotEqual, msg = ''%s is equal to %s'',
      con = mkVersion 1 2 3, predicate = ''!='', orig = ''1.2.3'', minorDirty = False,
      dirty = False\<rparr>"

lemma neq_parsed:
  "NewConstraint ''!=1.2.x'' = Inr \<lparr>constraints = [[c_neq_12x]]\<rparr> \<and>
   NewConstraint ''!=1.2.3'' = Inr \<lparr>constraints = [[c_neq_123]]\<rparr>"
  by code_simp

lemma neq_12x_examples:
  "CheckText ''!=1.2.x'' (mkVersion 1 1 9) = Some True \<and>
   CheckText ''!=1.2.x'' (mkVersion 1 3 0) = Some True \<and>
   CheckText ''!=1.2.x'' (mkVersion 1 2 5) = Some False \<and>
   SatisfiesText ''!=1.2.x'' (mkVersion 1 1 9) = Some True \<and>
   SatisfiesText ''!=1.2.x'' (mkVersion 1 3 0) = Some True \<and>
   SatisfiesText ''!=1.2.x'' (mkVersion 1 2 5) = Some False"
  by code_simp

text \<open>
  C3, as the code has it. In the range pipeline a \<open>!=\<close> clause without wildcard is
  satisfied by every version but those equal to the anchor, and one with a wildcard
  exactly by the versions strictly below the anchor or at or above the bumped anchor.
  The legacy function does the same without wildcard; with a wildcard it compares major
  (and minor) numbers, which gives the same answer for every version without
  prerelease.
\<close>

theorem not_equal_semantics:
  "Satisfies (expandNeq v False False) w = (\<not> Equal w v) \<and>
   (wm \<or> wp \<longrightarrow>
      Satisfies (expandNeq v wm wp) w = (LessThan w v \<or> Compare w (bumped v wm) \<ge> 0)) \<and>
   (\<not> dirty c \<longrightarrow> constraintNotEqual_f w c = (\<not> Equal w (con c))) \<and>
   (dirty c \<longrightarrow> zero_filled c \<longrightarrow> pre w = [] \<longrightarrow>
      constraintNotEqual_f w c =
        (LessThan w (con c) \<or> Compare w (bumped (con c) (minorDirty c)) \<ge> 0)) \<and>
   expand ''!='' v wm wp = Inr (expandNeq v wm wp) \<and>
   constraintOps ''!='' = Some constraintNotEqual"
proof -
  have a: "wm \<or> wp \<longrightarrow>
      Satisfies (expandNeq v wm wp) w = (LessThan w v \<or> Compare w (bumped v wm) \<ge> 0)"
    using neq_wild [of wm wp v w] by blast
  have b: "\<not> dirty c \<longrightarrow> constraintNotEqual_f w c = (\<not> Equal w (con c))"
    using legacy_neq_exact [of c w] by blast
  have d: "dirty c \<longrightarrow> zero_filled c \<longrightarrow> pre w = [] \<longrightarrow>
      constraintNotEqual_f w c =
        (LessThan w (con c) \<or> Compare w (bumped (con c) (minorDirty c)) \<ge> 0)"
    using legacy_neq_wild [of c w] by blast
  have e: "expand ''!='' v wm wp = Inr (expandNeq v wm wp)"
    by (simp add: expand_def)
  have f: "constraintOps ''!='' = Some constraintNotEqual"
    by (simp add: constraintOps_def)
  from neq_exact [of v w] a b d e f show ?thesis by blast
qed

theorem not_equal_semantics_witness:
  "NewConstraint ''!=1.2.x'' = Inr \<lparr>constraints = [[c_neq_12x]]\<rparr> \<and>
   dirty c_neq_12x \<and> zero_filled c_neq_12x \<and> pre (mkVersion 1 2 5) = [] \<and>
   \<not> constraintNotEqual_f (mkVersion 1 2 5) c_neq_12x \<and>
   \<not> LessThan (mkVersion 1 2 5) (mkVersion 1 2 0) \<and>
   \<not> Compare (mkVersion 1 2 5) (mkVersion 1 3 0) \<ge> 0 \<and>
   \<not> Satisfies (expandNeq (mkVersion 1 2 0) False True) (mkVersion 1 2 5) \<and>
   NewConstraint ''!=1.2.3'' = Inr \<lparr>constraints = [[c_neq_123]]\<rparr> \<and>
   \<not> dirty c_neq_123 \<and>
   constraintNotEqual_f (mkVersion 1 2 5) c_neq_123 \<and>
   \<not> Equal (mkVersion 1 2 5) (mkVersion 1 2 3) \<and>
   CheckText ''!=1.2.x'' (mkVersion 1 1 9) = Some True \<and>
   CheckText ''!=1.2.x'' (mkVersion 1 3 0) = Some True \<and>
   CheckText ''!=1.2.x'' (mkVersion 1 2 5) = Some False \<and>
   SatisfiesText ''!=1.2.x'' (mkVersion 1 1 9) = Some True \<and>
   SatisfiesText ''!=1.2.x'' (mkVersion 1 3 0) = Some True \<and>
   SatisfiesText ''!=1.2.x'' (mkVersion 1 2 5) = Some False"
proof -
  let ?w = "mkVersion 1 2 5"
  have e: "bumped (mkVersion 1 2 0) False = mkVersion 1 3 0"
    by (simp add: bumped_def eval_nat_numeral)
  have h1: "dirty c_neq_12x" "zero_filled c_neq_12x" "con c_neq_12x = mkVersion 1 2 0"
    "\<not> minorDirty c_neq_12x"
    by (simp_all add: c_neq_12x_def zero_filled_def)
  have h2: "\<not> dirty c_neq_123" "con c_neq_123 = mkVersion 1 2 3"
    by (simp_all add: c_neq_123_def)
  have p: "pre ?w = []" by simp
  have r: "\<not> LessThan ?w (mkVersion 1 2 0)" "\<not> Compare ?w (mkVersion 1 3 0) \<ge> 0"
    "\<not> Equal ?w (mkVersion 1 2 3)"
    by code_simp+
  have t1: "constraintNotEqual_f ?w c_neq_12x =
              (LessThan ?w (mkVersion 1 2 0) \<or> Compare ?w (mkVersion 1 3 0) \<ge> 0)"
    using not_equal_semantics [of "mkVersion 1 2 0" ?w False True c_neq_12x] h1 p e
    by simp
  have t2: "Satisfies (expandNeq (mkVersion 1 2 0) False True) ?w =
              (LessThan ?w (mkVersion 1 2 0) \<or> Compare ?w (mkVersion 1 3 0) \<ge> 0)"
    using not_equal_semantics [of "mkVersion 1 2 0" ?w False True c_neq_12x] e
    by simp
  have t3: "constraintNotEqual_f ?w c_neq_123 = (\<not> Equal ?w (mkVersion 1 2 3))"
    using not_equal_semantics [of "mkVersion 1 2 3" ?w False False c_neq_123] h2
    by simp
  from t1 t2 t3 r h1 h2 p neq_parsed neq_12x_examples
  show ?thesis by blast
qed

text \<open>
  The claim as the spec states it fails on prereleases in the legacy pipeline:
  \<open>!=1.2.x\<close> accepts 1.3.0-alpha, which lies between 1.2.0 and 1.3.0, and rejects
  1.2.0-alpha, which is strictly below the anchor 1.2.0.
\<close>

theorem legacy_not_equal_on_prereleases:
  "CheckText ''!=1.2.x'' (mkPrerelease 1 3 0 ''alpha'') = Some True \<and>
   in_range (mkVersion 1 2 0) (mkVersion 1 3 0) (mkPrerelease 1 3 0 ''alpha'') \<and>
   CheckText ''!=1.2.x'' (mkPrerelease 1 2 0 ''alpha'') = Some False \<and>
   LessThan (mkPrerelease 1 2 0 ''alpha'') (mkVersion 1 2 0)"
  by code_simp

section \<open>Where the two pipelines agree\<close>

lemma Satisfies_Union_c:
  "Satisfies (Union_c ks) w = list_ex (\<lambda>k. Satisfies k w) ks"
proof (cases "any \<in> set ks")
  case True
  then have "\<exists>k \<in> set ks. Satisfies k w" by (rule bexI [rotated]) simp
  with True show ?thesis by (simp add: Union_c_def list_ex_iff)
next
  case False
  have "(\<exists>k \<in> set (filter (\<lambda>c. c \<noteq> none) ks). Satisfies k w) =
        (\<exists>k \<in> set ks. Satisfies k w)"
    by auto
  moreover have "filter (\<lambda>c. c \<noteq> none) ks = [] \<Longrightarrow> \<not> (\<exists>k \<in> set ks. Satisfies k w)"
    by (auto simp: filter_empty_conv)
  ultimately show ?thesis using False
    by (auto simp: Union_c_def Let_def list_ex_iff)
qed

lemma Satisfies_Intersection_c:
  "Satisfies (Intersection_c ks) w = list_all (\<lambda>k. Satisfies k w) ks"
proof (cases "none \<in> set ks")
  case True
  then have "\<exists>k \<in> set ks. \<not> Satisfies k w" by (rule bexI [rotated]) simp
  with True show ?thesis by (auto simp: Intersection_c_def list_ex_iff list_all_iff)
next
  case False
  have "(\<forall>k \<in> set (filter (\<lambda>c. c \<noteq> any) ks). Satisfies k w) =
        (\<forall>k \<in> set ks. Satisfies k w)"
    by auto
  moreover have "filter (\<lambda>c. c \<noteq> any) ks = [] \<Longrightarrow> \<forall>k \<in> set ks. Satisfies k w"
    by (auto simp: filter_empty_conv)
  ultimately show ?thesis using False
    by (auto simp: Intersection_c_def Let_def list_ex_iff list_all_iff)
qed

lemma Compare_mkVersion_self:
  "pre v = [] \<Longrightarrow> Compare w (mkVersion (major v) (minor v) (patch v)) = Compare w v"
  by (simp add: Compare_def Major_def Minor_def Patch_def Prerelease_def)

lemma greater_agree:
  "constraintGreaterThan_f w c = Satisfies (expandGreater (con c) False) w"
  by (simp add: constraintGreaterThan_f_def expandGreater_def satisfiesRange_def
                rangeConstraint0_def GreaterThan_def Compare_gt_iff)

lemma greater_equal_agree:
  "constraintGreaterThanEqual_f w c = Satisfies (expandGreater (con c) True) w"
  by (auto simp: constraintGreaterThanEqual_f_def expandGreater_def satisfiesRange_def
                 rangeConstraint0_def GreaterThan_def Equal_def)

lemma less_agree:
  "\<not> dirty c \<Longrightarrow> pre (con c) = [] \<Longrightarrow>
     constraintLessThan_f w c = Satisfies (expandLess (con c) False False False) w"
  by (simp add: constraintLessThan_f_def expandLess_def satisfiesRange_def
                rangeConstraint0_def LessThan_def Compare_mkVersion_self Let_def)

lemma less_equal_agree:
  "\<not> dirty c \<Longrightarrow> pre (con c) = [] \<Longrightarrow>
     constraintLessThanEqual_f w c = Satisfies (expandLess (con c) False False True) w"
  by (auto simp: constraintLessThanEqual_f_def expandLess_def satisfiesRange_def
                 rangeConstraint0_def LessThan_def Equal_def Compare_mkVersion_self Let_def)

lemma less_wild_minor_agree:
  "minorDirty c \<Longrightarrow> dirty c \<Longrightarrow> zero_filled c \<Longrightarrow> pre w = [] \<Longrightarrow>
     constraintLessThan_f w c = Satisfies (expandLess (con c) True True False) w"
  by (auto simp: constraintLessThan_f_def expandLess_def satisfiesRange_def
                 rangeConstraint0_def LessThan_def Let_def zero_filled_def
                 Compare_def compareSegment_def comparePrerelease_def mkVersion_def
                 Major_def Minor_def Patch_def Prerelease_def)

lemma caret_agree:
  "pre w = [] \<Longrightarrow> constraintCaret_f w c = Satisfies (expandCaret (con c)) w"
  by (simp add: legacy_caret_range caret_range prerelease_of_def)

lemma tilde_agree:
  "pre w = [] \<Longrightarrow> \<not> zero_anchor (con c) \<Longrightarrow>
     constraintTilde_f w c = Satisfies (expandTilde (con c) (minorDirty c)) w"
  by (simp add: legacy_tilde_range tilde_range prerelease_of_def)

lemma constraintTilde_f_msg:
  "constraintTilde_f w (c\<lparr>msg := m\<rparr>) = constraintTilde_f w c"
  by (simp add: constraintTilde_f_def)

lemma tilde_or_equal_agree:
  "pre w = [] \<Longrightarrow> \<not> (dirty c \<and> zero_anchor (con c)) \<Longrightarrow>
     fst (constraintTildeOrEqual_f w c) =
       Satisfies (if dirty c then expandTilde (con c) (minorDirty c) else exact (con c)) w"
  by (auto simp: constraintTildeOrEqual_f_def Let_def constraintTilde_f_msg tilde_agree)

lemma not_equal_agree:
  assumes "pre w = []" and "zero_filled c" and "minorDirty c \<longrightarrow> dirty c"
  shows "constraintNotEqual_f w c = Satisfies (expandNeq (con c) (minorDirty c) (dirty c)) w"
proof (cases "dirty c")
  case True
  with assms show ?thesis by (simp add: legacy_neq_wild neq_wild)
next
  case False
  with assms show ?thesis
    by (auto simp: constraintNotEqual_f_def expandNeq_def satisfiesRange_def
                   rangeConstraint0_def)
qed

text \<open>
  \<open>agreeing c\<close>: the legacy clause \<open>c\<close> is one on which the two pipelines give the same
  answer for every version without prerelease. It has no wildcard major (which the
  legacy parser turns into a wildcard clause on the anchor 0.0.0); its predicate is not
  \<open>~>\<close>, which the range pipeline refuses; a \<open>~\<close> clause does not have the anchor 0.0.0;
  a \<open><\<close> clause has a wildcard minor or else no wildcard and no prerelease in its
  anchor; a \<open><=\<close> clause has no wildcard and no prerelease in its anchor.
\<close>

definition agreeing :: "constraint \<Rightarrow> bool" where
  "agreeing c =
     (\<not> (dirty c \<and> zero_anchor (con c)) \<and>
      (predicate c \<in> set [''>'', ''>='', ''=>'', ''^'', '''', ''='', ''!=''] \<or>
       (predicate c = ''~'' \<and> \<not> zero_anchor (con c)) \<or>
       (predicate c = ''<'' \<and> (if dirty c then minorDirty c else pre (con c) = [])) \<or>
       (predicate c \<in> set [''<='', ''=<''] \<and> \<not> dirty c \<and> pre (con c) = [])))"

lemma NewVersion_000: "NewVersion ''0.0.0'' = Inr (mkVersion 0 0 0)"
  by code_simp

lemma parse_shape:
  "parseConstraint s = Inr pc \<Longrightarrow>
     function_f pc = constraintOps (predicate pc) \<and> (minorDirty pc \<longrightarrow> dirty pc)"
  by (auto simp: parseConstraint_def Let_def split: option.splits if_splits sum.splits)

lemma parse_pair:
  assumes "parseConstraint s = Inr pc" and "parseConstraintNu s = Inr nc"
    and "\<not> (dirty pc \<and> zero_anchor (con pc))"
  shows "expand (predicate pc) (con pc) (minorDirty pc) (dirty pc) = Inr nc"
proof -
  from assms(1) obtain m where m: "FindStringSubmatch 11 constraintRegex s = Some m"
    by (auto simp: parseConstraint_def split: option.splits)
  show ?thesis
  proof (cases "isX (m ! 3)")
    case True
    with assms(1) m have "dirty pc \<and> con pc = mkVersion 0 0 0"
      by (auto simp: parseConstraint_def NewVersion_000)
    with assms(3) show ?thesis by (simp add: zero_anchor_def)
  next
    case False
    with assms(1,2) m show ?thesis
      by (auto simp: parseConstraint_def parseConstraintNu_def Let_def
               split: if_splits sum.splits)
  qed
qed

lemma clause_agree:
  assumes f: "function_f c = constraintOps (predicate c)"
    and md: "minorDirty c \<longrightarrow> dirty c"
    and a: "agreeing c" and z: "zero_filled c" and w: "pre w = []"
    and e: "expand (predicate c) (con c) (minorDirty c) (dirty c) = Inr k"
  shows "clause_holds c w = Satisfies k w"
proof -
  from a have nz: "\<not> (dirty c \<and> zero_anchor (con c))" by (simp add: agreeing_def)
  from a consider
      "predicate c = ''>''" | "predicate c = ''>=''" | "predicate c = ''=>''"
    | "predicate c = ''^''" | "predicate c = ''''" | "predicate c = ''=''"
    | "predicate c = ''!=''"
    | "predicate c = ''~''" "\<not> zero_anchor (con c)"
    | "predicate c = ''<''" "dirty c" "minorDirty c"
    | "predicate c = ''<''" "\<not> dirty c" "pre (con c) = []"
    | "predicate c = ''<=''" "\<not> dirty c" "pre (con c) = []"
    | "predicate c = ''=<''" "\<not> dirty c" "pre (con c) = []"
    by (auto simp: agreeing_def split: if_splits)
  then show ?thesis
  proof cases
    case 1
    with f e show ?thesis
      by (auto simp: clause_holds_def check_def constraintOps_def expand_def greater_agree)
  next
    case 2
    with f e show ?thesis
      by (auto simp: clause_holds_def check_def constraintOps_def expand_def greater_equal_agree)
  next
    case 3
    with f e show ?thesis
      by (auto simp: clause_holds_def check_def constraintOps_def expand_def greater_equal_agree)
  next
    case 4
    with f e w show ?thesis
      by (auto simp: clause_holds_def check_def constraintOps_def expand_def caret_agree)
  next
    case 5
    with f e md tilde_or_equal_agree [OF w nz] show ?thesis
      by (auto simp: clause_holds_def check_def constraintOps_def expand_def
               split: prod.splits if_splits)
  next
    case 6
    with f e md tilde_or_equal_agree [OF w nz] show ?thesis
      by (auto simp: clause_holds_def check_def constraintOps_def expand_def
               split: prod.splits if_splits)
  next
    case 7
    with f e not_equal_agree [OF w z md] show ?thesis
      by (auto simp: clause_holds_def check_def constraintOps_def expand_def)
  next
    case 8
    with f e tilde_agree [OF w 8(2)] show ?thesis
      by (auto simp: clause_holds_def check_def constraintOps_def expand_def)
  next
    case 9
    with f e less_wild_minor_agree [OF 9(3) 9(2) z w] show ?thesis
      by (auto simp: clause_holds_def check_def constraintOps_def expand_def)
  next
    case 10
    with f e md less_agree [OF 10(2) 10(3)] show ?thesis
      by (auto simp: clause_holds_def check_def constraintOps_def expand_def)
  next
    case 11
    with f e md less_equal_agree [OF 11(2) 11(3)] show ?thesis
      by (auto simp: clause_holds_def check_def constraintOps_def expand_def)
  next
    case 12
    with f e md less_equal_agree [OF 12(2) 12(3)] show ?thesis
      by (auto simp: clause_holds_def check_def constraintOps_def expand_def)
  qed
qed

lemma parsed_clause_agree:
  assumes "parseConstraint s = Inr pc" and "parseConstraintNu s = Inr nc"
    and "agreeing pc" and "zero_filled pc" and "pre w = []"
  shows "clause_holds pc w = Satisfies nc w"
proof -
  from assms(3) have nz: "\<not> (dirty pc \<and> zero_anchor (con pc))" by (simp add: agreeing_def)
  from parse_shape [OF assms(1)] have
    f: "function_f pc = constraintOps (predicate pc)" and md: "minorDirty pc \<longrightarrow> dirty pc"
    by simp_all
  from clause_agree [OF f md assms(3,4,5) parse_pair [OF assms(1,2) nz]] show ?thesis .
qed

lemma parse_clauses_agree:
  "parse_clauses ss = Inr g \<Longrightarrow> parse_clausesNu ss = Inr ks \<Longrightarrow>
   list_all agreeing g \<Longrightarrow> list_all zero_filled g \<Longrightarrow> pre w = [] \<Longrightarrow>
     group_holds g w = list_all (\<lambda>k. Satisfies k w) ks"
proof (induction ss arbitrary: g ks)
  case Nil
  then show ?case by (auto simp: group_holds_def)
next
  case (Cons s ss)
  from Cons.prems(1) obtain pc g' where
    pc: "parseConstraint s = Inr pc" and g': "parse_clauses ss = Inr g'" and g: "g = pc # g'"
    by (auto split: sum.splits)
  from Cons.prems(2) obtain nc ks' where
    nc: "parseConstraintNu s = Inr nc" and ks': "parse_clausesNu ss = Inr ks'"
    and ks: "ks = nc # ks'"
    by (auto split: sum.splits)
  from Cons.prems(3,4) g have h: "agreeing pc" "zero_filled pc"
    "list_all agreeing g'" "list_all zero_filled g'" by simp_all
  from parsed_clause_agree [OF pc nc h(1,2) Cons.prems(5)]
       Cons.IH [OF g' ks' h(3,4) Cons.prems(5)] g ks
  show ?case by (simp add: group_holds_def)
qed

lemma parse_groups_agree:
  "parse_groups ors = Inr gs \<Longrightarrow> parse_groupsNu ors = Inr ks \<Longrightarrow>
   list_all (list_all agreeing) gs \<Longrightarrow> list_all (list_all zero_filled) gs \<Longrightarrow>
   pre w = [] \<Longrightarrow>
     list_ex (\<lambda>g. group_holds g w) gs = list_ex (\<lambda>k. Satisfies k w) ks"
proof (induction ors arbitrary: gs ks)
  case Nil
  then show ?case by auto
next
  case (Cons v ors)
  from Cons.prems(1) obtain g gs' where
    g: "parse_clauses (Split v '','') = Inr g" and gs': "parse_groups ors = Inr gs'"
    and gs: "gs = g # gs'"
    by (auto split: sum.splits)
  from Cons.prems(2) obtain r ks' where
    r: "parse_clausesNu (Split v '','') = Inr r" and ks': "parse_groupsNu ors = Inr ks'"
    and ks: "ks = Intersection_c r # ks'"
    by (auto split: sum.splits)
  from Cons.prems(3,4) gs have h: "list_all agreeing g" "list_all zero_filled g"
    "list_all (list_all agreeing) gs'" "list_all (list_all zero_filled) gs'" by simp_all
  from parse_clauses_agree [OF g r h(1,2) Cons.prems(5)]
       Cons.IH [OF gs' ks' h(3,4) Cons.prems(5)] gs ks
  show ?case by (simp add: Satisfies_Intersection_c)
qed

section \<open>The anchor of a wildcard clause\<close>

lemma rmatch_suffix:
  "(c', s') \<in> set (rmatch n r s c) \<Longrightarrow> \<exists>p. s = p @ s'"
proof (induction n r s c arbitrary: c' s' rule: rmatch.induct)
  case (1 n s c)
  then show ?case by simp
next
  case (2 n cs s c)
  then show ?case by (auto split: list.splits if_splits)
next
  case (3 n w s c)
  then show ?case by (auto simp: prefix_def split: if_splits)
next
  case (4 n r1 r2 s c)
  from "4.prems" obtain c1 s1 where
    a: "(c1, s1) \<in> set (rmatch n r1 s c)" and b: "(c', s') \<in> set (rmatch n r2 s1 c1)"
    unfolding rmatch_Seq_iff by blast
  from "4.IH"(1) [OF a] "4.IH"(2) [OF a refl b] show ?case by auto
next
  case (5 n r1 r2 s c)
  from "5.prems" "5.IH" show ?case by auto
next
  case (6 n r s c)
  from rmatch_StarD [OF "6.prems"] consider "(c', s') = (c, s)"
    | c1 s1 where "(c1, s1) \<in> set (rmatch n r s c)" "length s1 < length s"
        "(c', s') \<in> set (rmatch n (Star r) s1 c1)"
    by blast
  then show ?case
  proof cases
    case 1
    then show ?thesis by simp
  next
    case 2
    from "6.IH"(1) [OF 2(1)] "6.IH"(2) [OF 2(1) refl 2(2) 2(3)]
    show ?thesis by auto
  qed
next
  case (7 n j r s c)
  from "7.prems" obtain c3 where "(c3, s') \<in> set (rmatch n r s c)" by auto
  from "7.IH" [OF this] show ?case .
next
  case (8 n s c)
  then show ?case by (simp split: if_splits)
next
  case (9 n s c)
  then show ?case by (simp split: if_splits)
qed

lemma rmatch_Star_Cls:
  "(c', s') \<in> set (rmatch n (Star (Cls cs)) s c) \<Longrightarrow>
     c' = c \<and> (\<exists>t. s = t @ s' \<and> set t \<subseteq> set cs)"
proof (induction s arbitrary: c' s')
  case Nil
  from rmatch_StarD [OF Nil] show ?case by auto
next
  case (Cons x xs)
  from rmatch_StarD [OF Cons.prems] consider "(c', s') = (c, x # xs)"
    | c1 s1 where "(c1, s1) \<in> set (rmatch n (Cls cs) (x # xs) c)"
        "(c', s') \<in> set (rmatch n (Star (Cls cs)) s1 c1)"
    by blast
  then show ?case
  proof cases
    case 1
    then show ?thesis by simp
  next
    case 2
    from 2(1) have x: "x \<in> set cs" "c1 = c" "s1 = xs" by (auto split: if_splits)
    from Cons.IH [of c' s'] 2(2) x obtain t where "c' = c" "xs = t @ s'" "set t \<subseteq> set cs"
      by auto
    with x(1) have "x # xs = (x # t) @ s' \<and> set (x # t) \<subseteq> set cs" by simp
    with \<open>c' = c\<close> show ?thesis by blast
  qed
qed

lemma rmatch_Plus_Cls:
  "(c', s') \<in> set (rmatch n (Plus_r (Cls cs)) s c) \<Longrightarrow>
     c' = c \<and> (\<exists>t. t \<noteq> [] \<and> s = t @ s' \<and> set t \<subseteq> set cs)"
proof -
  assume "(c', s') \<in> set (rmatch n (Plus_r (Cls cs)) s c)"
  then obtain c1 s1 where
    a: "(c1, s1) \<in> set (rmatch n (Cls cs) s c)" and
    b: "(c', s') \<in> set (rmatch n (Star (Cls cs)) s1 c1)"
    unfolding Plus_r_def rmatch_Seq_iff by blast
  from a obtain x where x: "s = x # s1" "x \<in> set cs" "c1 = c"
    by (auto split: list.splits if_splits)
  from rmatch_Star_Cls [OF b] obtain t where "c' = c1" "s1 = t @ s'" "set t \<subseteq> set cs"
    by blast
  with x have "c' = c \<and> x # t \<noteq> [] \<and> s = (x # t) @ s' \<and> set (x # t) \<subseteq> set cs" by simp
  then show ?thesis by blast
qed

lemma rmatch_Grp_Plus_Cls:
  "(c', s') \<in> set (rmatch n (Grp i (Plus_r (Cls cs))) s c) \<Longrightarrow>
     \<exists>t. t \<noteq> [] \<and> set t \<subseteq> set cs \<and> s = t @ s' \<and> c' = (i, t) # c"
proof -
  assume "(c', s') \<in> set (rmatch n (Grp i (Plus_r (Cls cs))) s c)"
  then obtain c3 where a: "(c3, s') \<in> set (rmatch n (Plus_r (Cls cs)) s c)"
    and c': "c' = (i, take (length s - length s') s) # c3"
    unfolding rmatch_Grp_iff by blast
  from rmatch_Plus_Cls [OF a] obtain t where "c3 = c" "t \<noteq> []" "s = t @ s'" "set t \<subseteq> set cs"
    by blast
  with c' show ?thesis by auto
qed

lemma rmatch_Opt_iff:
  "(c', s') \<in> set (rmatch n (Opt r) s c) \<longleftrightarrow>
     (c', s') \<in> set (rmatch n r s c) \<or> (c', s') = (c, s)"
  by (auto simp: Opt_def)

lemma rmatch_dot_component:
  "(c', s') \<in> set (rmatch n (Opt (Grp i (Seq (Str ''.'') (Plus_r (Cls cs))))) s c) \<Longrightarrow>
     (c', s') = (c, s) \<or>
     (\<exists>t. t \<noteq> [] \<and> set t \<subseteq> set cs \<and> s = ''.'' @ t @ s' \<and> c' = (i, ''.'' @ t) # c)"
proof -
  assume "(c', s') \<in> set (rmatch n (Opt (Grp i (Seq (Str ''.'') (Plus_r (Cls cs))))) s c)"
  then consider "(c', s') = (c, s)"
    | "(c', s') \<in> set (rmatch n (Grp i (Seq (Str ''.'') (Plus_r (Cls cs)))) s c)"
    unfolding rmatch_Opt_iff by blast
  then show ?thesis
  proof cases
    case 1
    then show ?thesis by simp
  next
    case 2
    then obtain c3 where a: "(c3, s') \<in> set (rmatch n (Seq (Str ''.'') (Plus_r (Cls cs))) s c)"
      and c': "c' = (i, take (length s - length s') s) # c3"
      unfolding rmatch_Grp_iff by blast
    from a obtain c1 s1 where b: "(c1, s1) \<in> set (rmatch n (Str ''.'') s c)"
      and d: "(c3, s') \<in> set (rmatch n (Plus_r (Cls cs)) s1 c1)"
      unfolding rmatch_Seq_iff by blast
    from b have s: "s = ''.'' @ s1" "c1 = c" by (auto simp: prefix_def split: if_splits)
    from rmatch_Plus_Cls [OF d] obtain t where "c3 = c1" "t \<noteq> []" "s1 = t @ s'" "set t \<subseteq> set cs"
      by blast
    with s c' have "t \<noteq> [] \<and> set t \<subseteq> set cs \<and> s = ''.'' @ t @ s' \<and> c' = (i, ''.'' @ t) # c"
      by auto
    then show ?thesis by blast
  qed
qed

lemma grps_tail: "j \<le> k \<Longrightarrow> j \<notin> grps (tail_r k)"
  by (simp add: tail_r_def ids_r_def Plus_r_def Opt_def)

lemma rmatch_tail:
  assumes "(c', s') \<in> set (rmatch n (tail_r k) s c)"
  shows "(s' = s \<or> (\<exists>x. s = CHR ''-'' # x) \<or> (\<exists>x. s = CHR ''+'' # x)) \<and>
         (map_of c' (k + 1) = map_of c (k + 1) \<or> (\<exists>x. map_of c' (k + 1) = Some (CHR ''-'' # x)))"
proof -
  let ?X = "Grp (k + 2) (ids_r (k + 3))" and ?Y = "Grp (k + 5) (ids_r (k + 6))"
  let ?G1 = "Grp (k + 1) (Seq (Str ''-'') ?X)" and ?G2 = "Grp (k + 4) (Seq (Str ''+'') ?Y)"
  from assms obtain c1 s1 where
    a: "(c1, s1) \<in> set (rmatch n (Opt ?G1) s c)" and
    b: "(c', s') \<in> set (rmatch n (Opt ?G2) s1 c1)"
    unfolding tail_r_def rmatch_Seq_iff by blast
  have nin: "k + 1 \<notin> grps ?G2"
    by (simp add: ids_r_def Plus_r_def)
  from b consider "(c', s') = (c1, s1)" | "(c', s') \<in> set (rmatch n ?G2 s1 c1)"
    unfolding rmatch_Opt_iff by blast
  then have b12: "map_of c' (k + 1) = map_of c1 (k + 1) \<and>
                  (s' = s1 \<or> (\<exists>x. s1 = CHR ''+'' # x))"
  proof cases
    case 1
    then show ?thesis by simp
  next
    case 2
    then obtain c5 where "(c5, s') \<in> set (rmatch n (Seq (Str ''+'') ?Y) s1 c1)"
      unfolding rmatch_Grp_iff by blast
    then obtain c6 s6 where "(c6, s6) \<in> set (rmatch n (Str ''+'') s1 c1)"
      unfolding rmatch_Seq_iff by blast
    then have "s1 = CHR ''+'' # s6" by (auto simp: prefix_def split: if_splits)
    with rmatch_frame [OF 2 nin] show ?thesis by simp
  qed
  then have b1: "map_of c' (k + 1) = map_of c1 (k + 1)"
    and b2: "s' = s1 \<or> (\<exists>x. s1 = CHR ''+'' # x)" by simp_all
  from a consider "(c1, s1) = (c, s)" | "(c1, s1) \<in> set (rmatch n ?G1 s c)"
    unfolding rmatch_Opt_iff by blast
  then show ?thesis
  proof cases
    case 1
    with b1 b2 show ?thesis by auto
  next
    case 2
    then obtain c3 where c3: "(c3, s1) \<in> set (rmatch n (Seq (Str ''-'') ?X) s c)"
      and c1: "c1 = (k + 1, take (length s - length s1) s) # c3"
      unfolding rmatch_Grp_iff by blast
    from c3 obtain c4 s4 where d: "(c4, s4) \<in> set (rmatch n (Str ''-'') s c)"
      and e: "(c3, s1) \<in> set (rmatch n ?X s4 c4)"
      unfolding rmatch_Seq_iff by blast
    from d have s: "s = CHR ''-'' # s4" by (auto simp: prefix_def split: if_splits)
    from rmatch_suffix [OF e] obtain p where "s4 = p @ s1" by blast
    with s have "take (length s - length s1) s = CHR ''-'' # p" by simp
    with c1 b1 s show ?thesis by simp
  qed
qed

lemma run_eq:
  assumes "t @ r = t' @ r'" and "set t \<subseteq> S" and "set t' \<subseteq> S"
    and "r = [] \<or> hd r \<notin> S" and "r' = [] \<or> hd r' \<notin> S"
  shows "t = t' \<and> r = r'"
proof -
  have tw: "\<And>u q. set u \<subseteq> S \<Longrightarrow> q = [] \<or> hd q \<notin> S \<Longrightarrow>
              takeWhile (\<lambda>x. x \<in> S) (u @ q) = u"
  proof -
    fix u q :: "'a list"
    assume u: "set u \<subseteq> S" and q: "q = [] \<or> hd q \<notin> S"
    from q have "takeWhile (\<lambda>x. x \<in> S) q = []" by (cases q) auto
    with u show "takeWhile (\<lambda>x. x \<in> S) (u @ q) = u"
      by (simp add: takeWhile_append2 subset_iff)
  qed
  from tw [OF assms(2,4)] tw [OF assms(3,5)] assms(1) have "t = t'" by simp
  with assms(1) show ?thesis by simp
qed

text \<open>
  What a match of the version pattern says about the text: an optional \<open>v\<close>, the digits
  of the major component, the optional minor and patch components, each a dot and
  digits, and a rest that is empty or starts with \<open>-\<close> or \<open>+\<close>; the groups 1 to 3 are the
  three components.
\<close>

definition dot_component :: "char list \<Rightarrow> string \<Rightarrow> bool" where
  "dot_component cs o' = (o' = [] \<or> (\<exists>t. t \<noteq> [] \<and> set t \<subseteq> set cs \<and> o' = ''.'' @ t))"

definition tail_start :: "string \<Rightarrow> bool" where
  "tail_start r = (r = [] \<or> (\<exists>x. r = CHR ''-'' # x) \<or> (\<exists>x. r = CHR ''+'' # x))"

lemma rmatch_dot_component_groups:
  assumes "(c', s') \<in> set (rmatch n (Opt (Grp i (Seq (Str ''.'') (Plus_r (Cls cs))))) s c)"
    and "map_of c i = None"
  shows "\<exists>o'. s = o' @ s' \<and> dot_component cs o' \<and> submatch c' i = o' \<and>
              (\<forall>j. j \<noteq> i \<longrightarrow> map_of c' j = map_of c j)"
proof -
  from rmatch_dot_component [OF assms(1)] consider "(c', s') = (c, s)"
    | t where "t \<noteq> []" "set t \<subseteq> set cs" "s = ''.'' @ t @ s'" "c' = (i, ''.'' @ t) # c"
    by blast
  then show ?thesis
  proof cases
    case 1
    with assms(2) have "s = [] @ s' \<and> dot_component cs [] \<and> submatch c' i = [] \<and>
              (\<forall>j. j \<noteq> i \<longrightarrow> map_of c' j = map_of c j)"
      by (simp add: dot_component_def submatch_def)
    then show ?thesis by blast
  next
    case 2
    then have "s = (''.'' @ t) @ s' \<and> dot_component cs (''.'' @ t) \<and>
              submatch c' i = ''.'' @ t \<and> (\<forall>j. j \<noteq> i \<longrightarrow> map_of c' j = map_of c j)"
      by (auto simp: dot_component_def submatch_def)
    then show ?thesis by blast
  qed
qed

lemma versionRegex_match:
  assumes "(c', s') \<in> set (rmatch n versionRegex s [])"
  shows "\<exists>v t1 o2 o3 rest.
           s = v @ t1 @ o2 @ o3 @ rest \<and> (v = [] \<or> v = ''v'') \<and>
           t1 \<noteq> [] \<and> set t1 \<subseteq> set digit_class \<and>
           dot_component digit_class o2 \<and> dot_component digit_class o3 \<and> tail_start rest \<and>
           submatch c' 1 = t1 \<and> submatch c' 2 = o2 \<and> submatch c' 3 = o3"
proof -
  let ?D = "Cls digit_class"
  from assms obtain c1 s1 c2 s2 c3 s3 c4 s4 c5 s5 c6 s6 where
    m0: "(c1, s1) \<in> set (rmatch n Bol s [])" and
    m1: "(c2, s2) \<in> set (rmatch n (Opt (Str ''v'')) s1 c1)" and
    m2: "(c3, s3) \<in> set (rmatch n (Grp 1 (Plus_r ?D)) s2 c2)" and
    m3: "(c4, s4) \<in> set (rmatch n (Opt (Grp 2 (Seq (Str ''.'') (Plus_r ?D)))) s3 c3)" and
    m4: "(c5, s5) \<in> set (rmatch n (Opt (Grp 3 (Seq (Str ''.'') (Plus_r ?D)))) s4 c4)" and
    m5: "(c6, s6) \<in> set (rmatch n (tail_r 3) s5 c5)" and
    m6: "(c', s') \<in> set (rmatch n Eol s6 c6)"
    unfolding versionRegex_def Seqs.simps rmatch_Seq_iff by blast
  from m0 have e0: "c1 = []" "s1 = s" by (auto split: if_splits)
  from m1 obtain v where e1: "c2 = c1" "s1 = v @ s2" "v = [] \<or> v = ''v''"
    unfolding rmatch_Opt_iff by (auto simp: prefix_def split: if_splits)
  from rmatch_Grp_Plus_Cls [OF m2] obtain t1 where
    e2: "t1 \<noteq> []" "set t1 \<subseteq> set digit_class" "s2 = t1 @ s3" "c3 = (1, t1) # c2" by blast
  from e0 e1 e2 have c3: "map_of c3 1 = Some t1" "map_of c3 2 = None" "map_of c3 3 = None"
    by simp_all
  from rmatch_dot_component_groups [OF m3 c3(2)] obtain o2 where
    e3: "s3 = o2 @ s4" "dot_component digit_class o2" "submatch c4 2 = o2"
      "\<forall>j. j \<noteq> 2 \<longrightarrow> map_of c4 j = map_of c3 j" by blast
  from e3(4) c3 have c4: "map_of c4 1 = Some t1" "map_of c4 3 = None" by simp_all
  from rmatch_dot_component_groups [OF m4 c4(2)] obtain o3 where
    e4: "s4 = o3 @ s5" "dot_component digit_class o3" "submatch c5 3 = o3"
      "\<forall>j. j \<noteq> 3 \<longrightarrow> map_of c5 j = map_of c4 j" by blast
  from e4(4) c4 e3(3) have c5: "submatch c5 1 = t1" "submatch c5 2 = o2"
    by (simp_all add: submatch_def)
  from m6 have e6: "c' = c6" "s6 = []" by (auto split: if_splits)
  from rmatch_tail [OF m5] e6 have e5: "tail_start s5"
    by (auto simp: tail_start_def)
  have "submatch c6 1 = submatch c5 1" "submatch c6 2 = submatch c5 2"
    "submatch c6 3 = submatch c5 3"
    using rmatch_frame [OF m5 grps_tail] by (simp_all add: submatch_def)
  with e4(3) c5 e6 have g: "submatch c' 1 = t1" "submatch c' 2 = o2" "submatch c' 3 = o3"
    by simp_all
  from e0 e1 e2 e3 e4 have "s = v @ t1 @ o2 @ o3 @ s5" by simp
  with e1(3) e2(1,2) e3(2) e4(2) e5 g show ?thesis by blast
qed

text \<open>
  What a match of the clause pattern says about its groups: the major component
  (group 3) is a non-empty run of the class, the minor component (group 4) is empty or
  a dot and such a run, and the prerelease part (group 6) is empty or starts with \<open>-\<close>.
\<close>

lemma grps_Alts_Str: "grps (Alts (map Str ws)) = {}"
proof (induction ws)
  case Nil
  then show ?case by simp
next
  case (Cons w ws)
  then show ?case by (cases ws) simp_all
qed

lemma cvRegex_2_unfold:
  "cvRegex 2 =
     Seq (Opt (Str ''v''))
      (Seq (Grp 3 (Plus_r (Cls cv_class)))
        (Seq (Opt (Grp 4 (Seq (Str ''.'') (Plus_r (Cls cv_class)))))
          (Seq (Opt (Grp 5 (Seq (Str ''.'') (Plus_r (Cls cv_class))))) (tail_r 5))))"
  by (simp add: cvRegex_def)

lemma cvRegex_2_groups:
  assumes "(c', s') \<in> set (rmatch n (cvRegex 2) s c)"
    and "\<forall>j \<ge> 2. map_of c j = None"
  shows "submatch c' 3 \<noteq> [] \<and> set (submatch c' 3) \<subseteq> set cv_class \<and>
         dot_component cv_class (submatch c' 4) \<and>
         (submatch c' 6 = [] \<or> (\<exists>x. submatch c' 6 = CHR ''-'' # x))"
proof -
  let ?C = "Cls cv_class"
  from assms(1) obtain c1 s1 c2 s2 c3 s3 c4 s4 where
    m1: "(c1, s1) \<in> set (rmatch n (Opt (Str ''v'')) s c)" and
    m2: "(c2, s2) \<in> set (rmatch n (Grp 3 (Plus_r ?C)) s1 c1)" and
    m3: "(c3, s3) \<in> set (rmatch n (Opt (Grp 4 (Seq (Str ''.'') (Plus_r ?C)))) s2 c2)" and
    m4: "(c4, s4) \<in> set (rmatch n (Opt (Grp 5 (Seq (Str ''.'') (Plus_r ?C)))) s3 c3)" and
    m5: "(c', s') \<in> set (rmatch n (tail_r 5) s4 c4)"
    unfolding cvRegex_2_unfold rmatch_Seq_iff by blast
  from m1 have e1: "c1 = c"
    unfolding rmatch_Opt_iff by (auto split: if_splits)
  from rmatch_Grp_Plus_Cls [OF m2] obtain A where
    e2: "A \<noteq> []" "set A \<subseteq> set cv_class" "c2 = (3, A) # c1" by blast
  from e1 e2 assms(2) have c2: "map_of c2 3 = Some A" "map_of c2 4 = None"
    "map_of c2 5 = None" "map_of c2 6 = None" by simp_all
  from rmatch_dot_component_groups [OF m3 c2(2)] obtain o4 where
    e3: "dot_component cv_class o4" "submatch c3 4 = o4"
      "\<forall>j. j \<noteq> 4 \<longrightarrow> map_of c3 j = map_of c2 j" by blast
  from e3(3) c2 have c3: "map_of c3 3 = Some A" "map_of c3 5 = None" "map_of c3 6 = None"
    by simp_all
  from rmatch_dot_component_groups [OF m4 c3(2)] obtain o5 where
    e4: "\<forall>j. j \<noteq> 5 \<longrightarrow> map_of c4 j = map_of c3 j" by blast
  from e4 c3 e3(2) have c4: "submatch c4 3 = A" "submatch c4 4 = o4" "map_of c4 6 = None"
    by (simp_all add: submatch_def)
  have f: "submatch c' 3 = submatch c4 3" "submatch c' 4 = submatch c4 4"
    using rmatch_frame [OF m5 grps_tail] by (simp_all add: submatch_def)
  from rmatch_tail [OF m5] c4(3) have
    "submatch c' 6 = [] \<or> (\<exists>x. submatch c' 6 = CHR ''-'' # x)"
    by (auto simp: submatch_def)
  with f c4 e2 e3(1) show ?thesis by simp
qed

lemma constraintRegex_groups:
  assumes "(c', s') \<in> set (rmatch n constraintRegex s [])"
  shows "submatch c' 3 \<noteq> [] \<and> set (submatch c' 3) \<subseteq> set cv_class \<and>
         dot_component cv_class (submatch c' 4) \<and>
         (submatch c' 6 = [] \<or> (\<exists>x. submatch c' 6 = CHR ''-'' # x))"
proof -
  let ?S = "Star (Cls space_class)"
  from assms obtain c1 s1 c2 s2 c3 s3 c4 s4 c5 s5 c6 s6 where
    m0: "(c1, s1) \<in> set (rmatch n Bol s [])" and
    m1: "(c2, s2) \<in> set (rmatch n ?S s1 c1)" and
    m2: "(c3, s3) \<in> set (rmatch n (Grp 1 (Alts (map Str ops))) s2 c2)" and
    m3: "(c4, s4) \<in> set (rmatch n ?S s3 c3)" and
    m4: "(c5, s5) \<in> set (rmatch n (Grp 2 (cvRegex 2)) s4 c4)" and
    m5: "(c6, s6) \<in> set (rmatch n ?S s5 c5)" and
    m6: "(c', s') \<in> set (rmatch n Eol s6 c6)"
    unfolding constraintRegex_unfold Seqs.simps rmatch_Seq_iff by blast
  from m0 have e0: "c1 = []" by (auto split: if_splits)
  from rmatch_Star_Cls [OF m1] e0 have e1: "c2 = []" by simp
  from m2 obtain c2' t where a: "(c2', s3) \<in> set (rmatch n (Alts (map Str ops)) s2 c2)"
    and e2: "c3 = (1, t) # c2'"
    unfolding rmatch_Grp_iff by blast
  have "\<forall>j. map_of c2' j = map_of c2 j"
    using rmatch_frame [OF a] by (simp add: grps_Alts_Str)
  with e1 e2 have c3: "\<forall>j \<ge> 2. map_of c3 j = None" by simp
  from rmatch_Star_Cls [OF m3] have e3: "c4 = c3" by simp
  from m4 obtain c4' u where b: "(c4', s5) \<in> set (rmatch n (cvRegex 2) s4 c4)"
    and e4: "c5 = (2, u) # c4'"
    unfolding rmatch_Grp_iff by blast
  from cvRegex_2_groups [OF b] c3 e3 have g:
    "submatch c4' 3 \<noteq> [] \<and> set (submatch c4' 3) \<subseteq> set cv_class \<and>
     dot_component cv_class (submatch c4' 4) \<and>
     (submatch c4' 6 = [] \<or> (\<exists>x. submatch c4' 6 = CHR ''-'' # x))"
    by simp
  from rmatch_Star_Cls [OF m5] have e5: "c6 = c5" by simp
  from m6 have e6: "c' = c6" by (auto split: if_splits)
  from e4 e5 e6 have "submatch c' 3 = submatch c4' 3" "submatch c' 4 = submatch c4' 4"
    "submatch c' 6 = submatch c4' 6"
    by (simp_all add: submatch_def)
  with g show ?thesis by simp
qed

text \<open>
  The text that the clause parser hands to \<open>NewVersion\<close> for a wildcard clause ends in
  \<open>.0\<close> followed by the prerelease part; the lemmas below show that \<open>NewVersion\<close> reads
  those zeros as the minor and patch components.
\<close>

lemma class_facts:
  "set digit_class \<subseteq> set cv_class"
  "CHR ''.'' \<notin> set cv_class" "CHR ''-'' \<notin> set cv_class" "CHR ''+'' \<notin> set cv_class"
  "CHR ''v'' \<notin> set cv_class" "set ''0'' \<subseteq> set digit_class"
  by (simp_all add: digit_class_def cv_class_def)

lemma tail_start_hd: "tail_start r \<Longrightarrow> r = [] \<or> hd r \<notin> set cv_class"
  by (auto simp: tail_start_def class_facts)

lemma tail_start_no_dot: "tail_start r \<Longrightarrow> r \<noteq> CHR ''.'' # x"
  by (auto simp: tail_start_def)

lemma dot_component_hd:
  "dot_component cs o' \<Longrightarrow> r = [] \<or> hd r \<notin> set cv_class \<Longrightarrow>
     o' @ r = [] \<or> hd (o' @ r) \<notin> set cv_class"
  by (auto simp: dot_component_def class_facts)

lemma dot_split:
  assumes "dot_component cs o'" and "set cs \<subseteq> S"
    and "o' @ R = ''.'' @ B @ Q" and "set B \<subseteq> S"
    and "R = [] \<or> hd R \<notin> S" and "Q = [] \<or> hd Q \<notin> S"
  shows "(o' = [] \<and> R = ''.'' @ B @ Q) \<or> (o' = ''.'' @ B \<and> R = Q)"
proof (cases "o' = []")
  case True
  with assms(3) show ?thesis by simp
next
  case False
  with assms(1) obtain t where t: "set t \<subseteq> set cs" "o' = ''.'' @ t"
    by (auto simp: dot_component_def)
  with assms(3) have "t @ R = B @ Q" by simp
  from run_eq [OF this _ assms(4,5,6)] t(1) assms(2) have "t = B \<and> R = Q" by blast
  with t(2) show ?thesis by simp
qed

lemma two_components:
  assumes o2: "dot_component digit_class o2" and o3: "dot_component digit_class o3"
    and r: "tail_start rest"
    and X: "dot_component cv_class X"
    and P: "P = [] \<or> (\<exists>x. P = CHR ''-'' # x)"
    and eq: "o2 @ o3 @ rest = X @ ''.0'' @ P"
  shows "(o3 = ''.0'' \<or> (o3 = [] \<and> X = [])) \<and> (X \<noteq> [] \<longrightarrow> o2 = X)"
proof -
  let ?S = "set cv_class"
  have dS: "set digit_class \<subseteq> ?S" by (rule class_facts)
  have zS: "set ''0'' \<subseteq> ?S" using class_facts(1,6) by blast
  from P have Ph: "P = [] \<or> hd P \<notin> ?S" by (auto simp: class_facts)
  have zPh: "''.0'' @ P = [] \<or> hd (''.0'' @ P) \<notin> ?S" by (simp add: class_facts)
  note rh = tail_start_hd [OF r]
  note o3h = dot_component_hd [OF o3 rh]
  have last_step: "\<And>Q. o3 @ rest = ''.0'' @ Q \<Longrightarrow> Q = [] \<or> hd Q \<notin> ?S \<Longrightarrow> o3 = ''.0''"
  proof -
    fix Q assume a: "o3 @ rest = ''.0'' @ Q" and q: "Q = [] \<or> hd Q \<notin> ?S"
    from a have "o3 @ rest = ''.'' @ ''0'' @ Q" by simp
    from dot_split [OF o3 dS this zS rh q] tail_start_no_dot [OF r]
    show "o3 = ''.0''" by auto
  qed
  show ?thesis
  proof (cases "X = []")
    case True
    with eq have "o2 @ (o3 @ rest) = ''.'' @ ''0'' @ P" by simp
    from dot_split [OF o2 dS this zS o3h Ph] consider
        "o2 = []" "o3 @ rest = ''.0'' @ P" | "o2 = ''.0''" "o3 @ rest = P"
      by auto
    then show ?thesis
    proof cases
      case 1
      from last_step [OF 1(2) Ph] True show ?thesis by simp
    next
      case 2
      have "o3 = []"
      proof (rule ccontr)
        assume "o3 \<noteq> []"
        with o3 obtain t where "o3 = ''.'' @ t" by (auto simp: dot_component_def)
        with 2(2) P show False by auto
      qed
      with True show ?thesis by simp
    qed
  next
    case False
    with X obtain B where B: "B \<noteq> []" "set B \<subseteq> ?S" "X = ''.'' @ B"
      by (auto simp: dot_component_def)
    with eq have "o2 @ (o3 @ rest) = ''.'' @ B @ (''.0'' @ P)" by simp
    from dot_split [OF o2 dS this B(2) o3h zPh] consider
        "o2 = []" "o3 @ rest = ''.'' @ B @ ''.0'' @ P" | "o2 = ''.'' @ B" "o3 @ rest = ''.0'' @ P"
      by auto
    then show ?thesis
    proof cases
      case 1
      from dot_split [OF o3 dS 1(2) B(2) rh zPh] tail_start_no_dot [OF r]
      show ?thesis by auto
    next
      case 2
      from last_step [OF 2(2) Ph] 2(1) B(3) show ?thesis by simp
    qed
  qed
qed

lemma find_first_suffix:
  "find_first n r s = Some (st, c, s') \<Longrightarrow> \<exists>p. s = p @ st"
proof (induction s)
  case Nil
  then show ?case by (auto split: list.splits)
next
  case (Cons x xs)
  show ?case
  proof (cases "rmatch n r (x # xs) []")
    case Nil
    with Cons.prems have "find_first n r xs = Some (st, c, s')" by simp
    from Cons.IH [OF this] obtain p where "xs = p @ st" by blast
    then have "x # xs = (x # p) @ st" by simp
    then show ?thesis by blast
  next
    case (Cons a list)
    with Cons.prems have "st = x # xs" by (auto split: prod.splits)
    then show ?thesis by simp
  qed
qed

lemma versionRegex_Bol:
  assumes "(c', s') \<in> set (rmatch n versionRegex s [])"
  shows "length s = n"
proof -
  from assms obtain c1 s1 where "(c1, s1) \<in> set (rmatch n Bol s [])"
    unfolding versionRegex_def Seqs.simps rmatch_Seq_iff by blast
  then show ?thesis by (auto split: if_splits)
qed

lemma NewVersion_components:
  assumes "NewVersion s = Inr v"
  shows "\<exists>pfx t1 o2 o3 rest.
           s = pfx @ t1 @ o2 @ o3 @ rest \<and> (pfx = [] \<or> pfx = ''v'') \<and>
           t1 \<noteq> [] \<and> set t1 \<subseteq> set digit_class \<and>
           dot_component digit_class o2 \<and> dot_component digit_class o3 \<and> tail_start rest \<and>
           minor v = parseNat (TrimPrefix o2 ''.'') \<and>
           patch v = parseNat (TrimPrefix o3 ''.'')"
proof -
  from assms obtain st c s' where
    f: "find_first (length s) versionRegex s = Some (st, c, s')" and
    v: "v = \<lparr>major = parseNat (groups_of 9 (st, c, s') ! 1),
             minor = parseNat (TrimPrefix (groups_of 9 (st, c, s') ! 2) ''.''),
             patch = parseNat (TrimPrefix (groups_of 9 (st, c, s') ! 3) ''.''),
             pre = groups_of 9 (st, c, s') ! 5,
             metadata = groups_of 9 (st, c, s') ! 8\<rparr>"
    by (auto simp: NewVersion_def FindStringSubmatch_def split: option.splits)
  note m = find_first_rmatch [OF f]
  from find_first_suffix [OF f] versionRegex_Bol [OF m] have st: "st = s" by auto
  have g: "groups_of 9 (st, c, s') ! 2 = submatch c 2" "groups_of 9 (st, c, s') ! 3 = submatch c 3"
    by (simp_all add: groups_of_nth)
  from versionRegex_match [OF m] obtain pfx t1 o2 o3 rest where
    d: "st = pfx @ t1 @ o2 @ o3 @ rest" "pfx = [] \<or> pfx = ''v''"
       "t1 \<noteq> []" "set t1 \<subseteq> set digit_class"
       "dot_component digit_class o2" "dot_component digit_class o3" "tail_start rest"
       "submatch c 2 = o2" "submatch c 3 = o3"
    by blast
  from v g d(8,9) have "minor v = parseNat (TrimPrefix o2 ''.'')"
    "patch v = parseNat (TrimPrefix o3 ''.'')" by simp_all
  with d st show ?thesis by blast
qed

lemma major_run:
  assumes eq: "pfx @ t1 @ R = A @ Q" and pfx: "pfx = [] \<or> pfx = ''v''"
    and t1: "set t1 \<subseteq> set digit_class" and A: "A \<noteq> []" "set A \<subseteq> set cv_class"
    and R: "R = [] \<or> hd R \<notin> set cv_class" and Q: "Q = [] \<or> hd Q \<notin> set cv_class"
  shows "R = Q"
proof -
  have "pfx = []"
  proof (rule ccontr)
    assume "pfx \<noteq> []"
    with pfx have "pfx = ''v''" by simp
    with eq have "hd (A @ Q) = CHR ''v''" by (metis append_Cons list.sel(1))
    with A show False by (cases A) (auto simp: class_facts)
  qed
  with eq have "t1 @ R = A @ Q" by simp
  from run_eq [OF this _ A(2) R Q] t1 class_facts(1) show ?thesis by blast
qed

lemma parseNat_zero:
  "parseNat (TrimPrefix ''.0'' ''.'') = 0" "parseNat (TrimPrefix [] ''.'') = 0"
  by (simp_all add: parseNat_def TrimPrefix_def digit_val_def)

lemma NewVersion_zero_fill:
  assumes nv: "NewVersion (A @ X @ ''.0'' @ P) = Inr v"
    and A: "A \<noteq> []" "set A \<subseteq> set cv_class"
    and X: "dot_component cv_class X"
    and P: "P = [] \<or> (\<exists>x. P = CHR ''-'' # x)"
  shows "patch v = 0 \<and> (X = ''.0'' \<longrightarrow> minor v = 0)"
proof -
  from NewVersion_components [OF nv] obtain pfx t1 o2 o3 rest where
    d: "A @ X @ ''.0'' @ P = pfx @ t1 @ o2 @ o3 @ rest" "pfx = [] \<or> pfx = ''v''"
       "set t1 \<subseteq> set digit_class"
       "dot_component digit_class o2" "dot_component digit_class o3" "tail_start rest"
       "minor v = parseNat (TrimPrefix o2 ''.'')" "patch v = parseNat (TrimPrefix o3 ''.'')"
    by blast
  have Rh: "o2 @ o3 @ rest = [] \<or> hd (o2 @ o3 @ rest) \<notin> set cv_class"
    using dot_component_hd [OF d(4) dot_component_hd [OF d(5) tail_start_hd [OF d(6)]]] .
  have Qh: "X @ ''.0'' @ P = [] \<or> hd (X @ ''.0'' @ P) \<notin> set cv_class"
    using X by (auto simp: dot_component_def class_facts)
  from major_run [OF d(1) [symmetric] d(2,3) A Rh Qh]
  have "o2 @ o3 @ rest = X @ ''.0'' @ P" .
  from two_components [OF d(4,5,6) X P this] d(7,8) show ?thesis
    by (auto simp: parseNat_zero)
qed

text \<open>Every clause that the legacy parser builds has a zero-filled anchor.\<close>

lemma parseConstraint_zero_filled:
  assumes "parseConstraint s = Inr pc"
  shows "zero_filled pc"
proof -
  from assms obtain m where m: "FindStringSubmatch 11 constraintRegex s = Some m"
    by (auto simp: parseConstraint_def split: option.splits)
  then obtain st c s' where
    f: "find_first (length s) constraintRegex s = Some (st, c, s')" and
    mg: "m = groups_of 11 (st, c, s')"
    by (auto simp: FindStringSubmatch_def)
  from constraintRegex_groups [OF find_first_rmatch [OF f]] mg have g:
    "m ! 3 \<noteq> []" "set (m ! 3) \<subseteq> set cv_class" "dot_component cv_class (m ! 4)"
    "m ! 6 = [] \<or> (\<exists>x. m ! 6 = CHR ''-'' # x)"
    by (simp_all add: groups_of_nth)
  have z: "dot_component cv_class ''.0''"
    by (simp add: dot_component_def cv_class_def)
  consider (major) "isX (m ! 3)"
    | (minor) "\<not> isX (m ! 3)" "isX (TrimPrefix (m ! 4) ''.'')"
    | (patch) "\<not> isX (m ! 3)" "\<not> isX (TrimPrefix (m ! 4) ''.'')" "isX (TrimPrefix (m ! 5) ''.'')"
    | (none) "\<not> isX (m ! 3)" "\<not> isX (TrimPrefix (m ! 4) ''.'')"
        "\<not> isX (TrimPrefix (m ! 5) ''.'')"
    by blast
  then show ?thesis
  proof cases
    case major
    with assms m show ?thesis
      by (auto simp: parseConstraint_def NewVersion_000 zero_filled_def)
  next
    case minor
    with assms m obtain v where
      nv: "NewVersion (m ! 3 @ ''.0'' @ ''.0'' @ m ! 6) = Inr v" and "con pc = v"
      by (auto simp: parseConstraint_def split: sum.splits)
    with NewVersion_zero_fill [OF nv g(1,2) z g(4)] show ?thesis
      by (simp add: zero_filled_def)
  next
    case patch
    with assms m obtain v where
      nv: "NewVersion (m ! 3 @ m ! 4 @ ''.0'' @ m ! 6) = Inr v" and "con pc = v"
      and "\<not> minorDirty pc"
      by (auto simp: parseConstraint_def split: sum.splits)
    with NewVersion_zero_fill [OF nv g(1,2,3,4)] show ?thesis
      by (simp add: zero_filled_def)
  next
    case none
    with assms m show ?thesis
      by (auto simp: parseConstraint_def zero_filled_def split: sum.splits)
  qed
qed

end
